theory Spec2Isabelle
  imports Main "HOL-Library.AList" "HOL-Library.Sublist"
begin

section \<open>Configuration values\<close>

text \<open>
  The values a configuration can hold. The model covers \<^verbatim>\<open>None\<close>, booleans, integers,
  strings, lists, mappings with string keys, the numpy boolean wrapper \<^verbatim>\<open>numpy.bool_\<close>,
  and \<open>VOpaque c\<close>: an object of class \<open>c\<close> that is neither iterable nor encodable by
  \<^verbatim>\<open>json.dumps\<close> (a function object, for instance). A Python mapping is an association
  list in insertion order; a well-formed one has pairwise distinct keys, and two mappings
  are equal as Python dicts when their \<open>map_of\<close> agree. All values are handled by value:
  an assignment binds a value that shares no mutable object with another binding.
\<close>

datatype val =
    VNone
  | VBool bool
  | VInt int
  | VStr string
  | VNpBool bool
  | VOpaque string
  | VList "val list"
  | VDict "(string \<times> val) list"

type_synonym dict = "(string \<times> val) list"

datatype pytype =
  NoneType | BoolType | IntType | StrType | NumpyBoolType | ListType | DictType | OtherType string

fun type_of :: "val \<Rightarrow> pytype" where
  "type_of VNone = NoneType"
| "type_of (VBool b) = BoolType"
| "type_of (VInt i) = IntType"
| "type_of (VStr s) = StrType"
| "type_of (VNpBool b) = NumpyBoolType"
| "type_of (VOpaque c) = OtherType c"
| "type_of (VList xs) = ListType"
| "type_of (VDict kvs) = DictType"

text \<open>\<open>json_dumps_ok v\<close>: \<^verbatim>\<open>json.dumps(v)\<close> returns instead of raising \<^verbatim>\<open>TypeError\<close>.\<close>

fun json_dumps_ok :: "val \<Rightarrow> bool" where
  "json_dumps_ok VNone = True"
| "json_dumps_ok (VBool b) = True"
| "json_dumps_ok (VInt i) = True"
| "json_dumps_ok (VStr s) = True"
| "json_dumps_ok (VNpBool b) = False"
| "json_dumps_ok (VOpaque c) = False"
| "json_dumps_ok (VList xs) = list_all json_dumps_ok xs"
| "json_dumps_ok (VDict kvs) = list_all (\<lambda>kv. json_dumps_ok (snd kv)) kvs"

text \<open>
  The exceptions of the module. \<open>KeyError_unresolved arg available\<close> is the
  \<^verbatim>\<open>KeyError\<close> of \<^verbatim>\<open>ConfigScope.__call__\<close>, whose message is built from the parameter
  name and the set of available names; \<open>KeyError_invalid_key\<close> and
  \<open>ValueError_invalid_value\<close> are the two errors of \<^verbatim>\<open>ConfigDict.__init__\<close>, whose
  messages are both built from the key. \<open>Raised\<close> is an exception raised by an
  expression of a scope's body. \<open>OutsideModel\<close> marks the one run the value model
  cannot follow (a key that is not a string would be stored in a mapping).
\<close>

datatype error =
    KeyError_unresolved string "string set"
  | KeyError_invalid_key val
  | ValueError_invalid_value string
  | TypeError
  | IndexError
  | Raised string
  | OutsideModel

definition or_empty :: "dict option \<Rightarrow> dict" where
  "or_empty d = (case d of None \<Rightarrow> [] | Some m \<Rightarrow> m)"

definition keys :: "dict \<Rightarrow> string set" where
  "keys d = fst ` set d"

text \<open>\<^verbatim>\<open>d.update(other)\<close> of a plain dict.\<close>

definition dict_update :: "dict \<Rightarrow> dict \<Rightarrow> dict" where
  "dict_update d other = fold (\<lambda>kv acc. AList.update (fst kv) (snd kv) acc) other d"

definition startswith_underscore :: "string \<Rightarrow> bool" where
  "startswith_underscore key \<longleftrightarrow> take 1 key = ''_''"

section \<open>Source extractor: dedenting a function body\<close>

text \<open>
  Whitespace as \<^verbatim>\<open>str.strip\<close> and the pattern \<^verbatim>\<open>\s\<close> see it on the characters of the
  model: blank, tab, line feed, vertical tab, form feed, carriage return and the four
  separators \<^verbatim>\<open>0x1C\<close> to \<^verbatim>\<open>0x1F\<close>.
\<close>

definition is_space :: "char \<Rightarrow> bool" where
  "is_space c \<longleftrightarrow> c \<in> {CHR '' '', CHR 0x09, CHR 0x0A, CHR 0x0B, CHR 0x0C, CHR 0x0D,
                          CHR 0x1C, CHR 0x1D, CHR 0x1E, CHR 0x1F}"

definition strip :: "string \<Rightarrow> string" where
  "strip s = rev (dropWhile is_space (rev (dropWhile is_space s)))"

definition is_empty_or_comment :: "string \<Rightarrow> bool" where
  "is_empty_or_comment line =
     (let sline = strip line in sline = [] \<or> take 1 sline = ''#'')"

text \<open>
  The \<^verbatim>\<open>for ... else\<close> loop of \<^verbatim>\<open>dedent_line\<close> over
  \<^verbatim>\<open>enumerate(zip(line, indent))\<close>: \<open>Some i\<close> when it breaks at index \<open>i\<close>,
  \<open>None\<close> when it runs to the end and the \<^verbatim>\<open>else\<close> branch is taken.
\<close>

fun first_mismatch :: "nat \<Rightarrow> (char \<times> char) list \<Rightarrow> nat option" where
  "first_mismatch i [] = None"
| "first_mismatch i ((line_sym, indent_sym) # rest) =
     (if line_sym \<noteq> indent_sym then Some i else first_mismatch (Suc i) rest)"

definition dedent_line :: "string \<Rightarrow> string \<Rightarrow> string" where
  "dedent_line line indent =
     (let start = (case first_mismatch 0 (zip line indent) of
                     Some i \<Rightarrow> i
                   | None \<Rightarrow> length indent)
      in drop start line)"

text \<open>\<^verbatim>\<open>body.split('\n')\<close> and \<^verbatim>\<open>'\n'.join(out_lines)\<close>.\<close>

fun split_nl :: "string \<Rightarrow> string list" where
  "split_nl [] = [[]]"
| "split_nl (c # cs) =
     (if c = CHR 0x0A then [] # split_nl cs
      else (case split_nl cs of l # ls \<Rightarrow> (c # l) # ls | [] \<Rightarrow> [[c]]))"

fun join_nl :: "string list \<Rightarrow> string" where
  "join_nl [] = []"
| "join_nl [l] = l"
| "join_nl (l # ls) = l @ CHR 0x0A # join_nl ls"

text \<open>
  The first loop of \<^verbatim>\<open>dedent_function_body\<close>: the leading whitespace
  (\<^verbatim>\<open>re.match('^\s*', line).group()\<close>) of the first line that is neither empty nor
  a comment, and the empty string when there is no such line.
\<close>

fun find_indent :: "string list \<Rightarrow> string" where
  "find_indent [] = []"
| "find_indent (line # rest) =
     (if is_empty_or_comment line then find_indent rest else takeWhile is_space line)"

definition dedent_function_body :: "string \<Rightarrow> string" where
  "dedent_function_body body =
     (let lines = split_nl body;
          indent = find_indent lines;
          out_lines = map (\<lambda>line. dedent_line line indent) lines
      in join_nl out_lines)"

section \<open>The tracking namespace\<close>

text \<open>
  The module \<^verbatim>\<open>sacred.custom_containers\<close> (the functions \<^verbatim>\<open>dogmatize\<close> and
  \<^verbatim>\<open>undogmatize\<close> and the dictionary class they convert to and from) is not among the
  source files. Every definition of this section is modelled from section 4.2 of the
  specification, which calls the class the tracking namespace. Nested mappings are
  plain values of the model: the nested tracking structures of the specification have no
  operation of their own there.
\<close>

text \<open>
  Modelled from the spec: the state of the namespace class of
  \<^verbatim>\<open>sacred.custom_containers\<close>. \<open>primary\<close> is the key-value store, \<open>authoritative\<close>
  the mapping the namespace was seeded from (its keys are the keys present at
  initialization), \<open>fallback\<close> the read-only side table, and the three last fields are
  the attributes \<^verbatim>\<open>modified\<close>, \<^verbatim>\<open>typechanges\<close> and \<^verbatim>\<open>ignored_fallback_writes\<close>.
\<close>

record tracking_namespace =
  primary :: dict
  authoritative :: dict
  fallback :: dict
  ns_modified :: "string set"
  ns_typechanges :: "(string \<times> pytype \<times> pytype) list"
  ns_ignored_fallback_writes :: "string list"

text \<open>
  Modelled from the spec: \<^verbatim>\<open>dogmatize\<close> of \<^verbatim>\<open>sacred.custom_containers\<close>. The
  namespace is seeded from the \<^verbatim>\<open>fixed\<close> layer, and every key present at initialization
  is marked authoritative.
\<close>

definition dogmatize :: "dict \<Rightarrow> tracking_namespace" where
  "dogmatize fixed =
     \<lparr>primary = fixed, authoritative = fixed, fallback = [], ns_modified = {},
      ns_typechanges = [], ns_ignored_fallback_writes = []\<rparr>"

text \<open>
  Modelled from the spec: the item read of the namespace class. The side table backs
  reads for names that are not present in the primary store.
\<close>

definition ns_getitem :: "tracking_namespace \<Rightarrow> string \<Rightarrow> val option" where
  "ns_getitem ns k =
     (case map_of (primary ns) k of
        Some v \<Rightarrow> Some v
      | None \<Rightarrow> map_of (fallback ns) k)"

text \<open>
  Modelled from the spec: the item write of the namespace class. A write to a key that
  was present at initialization records the key in \<open>modified\<close> and is reverted. A write
  to any other key is accepted; when the name resolves only through the side table at
  that moment, it is also appended to \<open>ignored_fallback_writes\<close>; when the key was bound
  to a value of another type, the transition is recorded in \<open>typechanges\<close>.
\<close>

definition ns_setitem :: "tracking_namespace \<Rightarrow> string \<Rightarrow> val \<Rightarrow> tracking_namespace" where
  "ns_setitem ns k v =
     (if k \<in> keys (authoritative ns) then ns\<lparr>ns_modified := insert k (ns_modified ns)\<rparr>
      else ns\<lparr>primary := AList.update k v (primary ns),
              ns_ignored_fallback_writes :=
                (if k \<notin> keys (primary ns) \<and> k \<in> keys (fallback ns)
                 then ns_ignored_fallback_writes ns @ [k]
                 else ns_ignored_fallback_writes ns),
              ns_typechanges :=
                (case map_of (primary ns) k of
                   None \<Rightarrow> ns_typechanges ns
                 | Some old \<Rightarrow>
                     if type_of old \<noteq> type_of v
                     then AList.update k (type_of old, type_of v) (ns_typechanges ns)
                     else ns_typechanges ns)\<rparr>)"

text \<open>
  Modelled from the spec: \<^verbatim>\<open>update\<close> of the namespace class, for a mapping as its
  argument. Section 4.4 of the specification has the merge obey the write semantics:
  every item is written through the namespace.
\<close>

definition ns_update :: "tracking_namespace \<Rightarrow> dict \<Rightarrow> tracking_namespace" where
  "ns_update ns other = fold (\<lambda>kv acc. ns_setitem acc (fst kv) (snd kv)) other ns"

text \<open>
  Modelled from the spec: \<^verbatim>\<open>revelation\<close> of the namespace class, the keys present now
  minus the keys present at the start.
\<close>

definition revelation :: "tracking_namespace \<Rightarrow> string set" where
  "revelation ns = keys (primary ns) - keys (authoritative ns)"

text \<open>
  Modelled from the spec: \<^verbatim>\<open>undogmatize\<close> of \<^verbatim>\<open>sacred.custom_containers\<close>, the
  conversion back to ordinary nested mappings and sequences, on a value, on a plain
  mapping and on the namespace. A value of the model holds no tracking structure, so the
  conversion returns it as it is.
\<close>

definition undogmatize_value :: "val \<Rightarrow> val" where
  "undogmatize_value v = v"

definition undogmatize_dict :: "dict \<Rightarrow> dict" where
  "undogmatize_dict d = map (\<lambda>kv. (fst kv, undogmatize_value (snd kv))) d"

definition undogmatize :: "tracking_namespace \<Rightarrow> dict" where
  "undogmatize ns = undogmatize_dict (primary ns)"

section \<open>Filling in the unused presets\<close>

text \<open>
  \<^verbatim>\<open>recursive_fill_in(config, preset)\<close> on a nested mapping \<open>config\<close>. The source
  iterates over \<^verbatim>\<open>preset\<close> whatever it is. For a mapping the loop is \<open>fill_items\<close>.
  For a string or a list the loop is \<open>fill_keys\<close>: a string element that is a key of
  \<open>config\<close> bound to a value that is no mapping is skipped, and every other element ends
  the loop with the exception of \<^verbatim>\<open>preset[key]\<close> or of hashing the element (an integer
  that is a valid index would be stored as a key: \<open>OutsideModel\<close>). Any other value is not
  iterable.
\<close>

fun fill_keys :: "dict \<Rightarrow> nat \<Rightarrow> val list \<Rightarrow> error + dict" where
  "fill_keys config n [] = Inr config"
| "fill_keys config n (VStr s # rest) =
     (case map_of config s of
        None \<Rightarrow> Inl TypeError
      | Some (VDict sub) \<Rightarrow> Inl TypeError
      | Some _ \<Rightarrow> fill_keys config n rest)"
| "fill_keys config n (VInt i # rest) =
     (if - int n \<le> i \<and> i < int n then Inl OutsideModel else Inl IndexError)"
| "fill_keys config n (VBool b # rest) =
     (if (if b then 1 else 0) < n then Inl OutsideModel else Inl IndexError)"
| "fill_keys config n (VNpBool b # rest) = Inl OutsideModel"
| "fill_keys config n (_ # rest) = Inl TypeError"

function recursive_fill_in :: "dict \<Rightarrow> val \<Rightarrow> error + dict"
  and fill_items :: "dict \<Rightarrow> dict \<Rightarrow> error + dict" where
  "recursive_fill_in config (VDict preset) = fill_items config preset"
| "recursive_fill_in config (VStr s) = fill_keys config (length s) (map (\<lambda>c. VStr [c]) s)"
| "recursive_fill_in config (VList xs) = fill_keys config (length xs) xs"
| "recursive_fill_in config VNone = Inl TypeError"
| "recursive_fill_in config (VBool b) = Inl TypeError"
| "recursive_fill_in config (VInt i) = Inl TypeError"
| "recursive_fill_in config (VNpBool b) = Inl TypeError"
| "recursive_fill_in config (VOpaque c) = Inl TypeError"
| "fill_items config [] = Inr config"
| "fill_items config ((key, pv) # rest) =
     (case map_of config key of
        None \<Rightarrow> fill_items (AList.update key pv config) rest
      | Some (VDict sub) \<Rightarrow>
          (case recursive_fill_in sub pv of
             Inl e \<Rightarrow> Inl e
           | Inr sub' \<Rightarrow> fill_items (AList.update key (VDict sub') config) rest)
      | Some _ \<Rightarrow> fill_items config rest)"
  by pat_completeness auto
termination
  by (relation "measure (\<lambda>x. case x of
         Inl (config, preset) \<Rightarrow> size preset
       | Inr (config, items) \<Rightarrow> size_list (size_prod (\<lambda>_. 0) size) items)") auto

text \<open>
  The same loop on the namespace itself (the call \<^verbatim>\<open>recursive_fill_in(cfg_locals, preset)\<close>):
  a missing key is written through the namespace, a nested mapping is completed in place.
\<close>

fun recursive_fill_in_ns :: "tracking_namespace \<Rightarrow> dict \<Rightarrow> error + tracking_namespace" where
  "recursive_fill_in_ns config [] = Inr config"
| "recursive_fill_in_ns config ((key, pv) # rest) =
     (case map_of (primary config) key of
        None \<Rightarrow> recursive_fill_in_ns (ns_setitem config key pv) rest
      | Some (VDict sub) \<Rightarrow>
          (case recursive_fill_in sub pv of
             Inl e \<Rightarrow> Inl e
           | Inr sub' \<Rightarrow>
               recursive_fill_in_ns
                 (config\<lparr>primary := AList.update key (VDict sub') (primary config)\<rparr>) rest)
      | Some _ \<Rightarrow> recursive_fill_in_ns config rest)"

section \<open>Configuration entries\<close>

record ConfigSummary =
  entries :: dict
  added_values :: "string set"
  ignored_fallback_writes :: "string list"
  modified :: "string set"
  typechanges :: "(string \<times> pytype \<times> pytype) list"

text \<open>
  The body of a scope is the compiled body of its function, run by \<^verbatim>\<open>eval\<close> with the
  namespace as its locals. The model is a straight-line sequence of assignments
  \<^verbatim>\<open>name = expression\<close>: the expression reads names through the namespace (the globals
  of the function are part of the expression) and returns a value or raises.
\<close>

datatype stmt = Assign string "(string \<Rightarrow> val option) \<Rightarrow> error + val"

datatype entry =
    ConfigScope "string list" "stmt list"
  | ConfigDict dict

fun target :: "stmt \<Rightarrow> string" where
  "target (Assign x e) = x"

fun exec_stmt :: "stmt \<Rightarrow> tracking_namespace \<Rightarrow> error + tracking_namespace" where
  "exec_stmt (Assign x e) ns =
     (case e (ns_getitem ns) of
        Inl err \<Rightarrow> Inl err
      | Inr v \<Rightarrow> Inr (ns_setitem ns x v))"

fun exec_body :: "stmt list \<Rightarrow> tracking_namespace \<Rightarrow> error + tracking_namespace" where
  "exec_body [] ns = Inr ns"
| "exec_body (s # ss) ns =
     (case exec_stmt s ns of
        Inl err \<Rightarrow> Inl err
      | Inr ns' \<Rightarrow> exec_body ss ns')"

subsection \<open>ConfigDict\<close>

text \<open>
  The regular expression \<^verbatim>\<open>PYTHON_IDENTIFIER\<close> of \<^verbatim>\<open>sacred.utils\<close> is not among the
  source files; what it matches is modelled from section 4.4 of the specification.
\<close>

definition is_letter :: "char \<Rightarrow> bool" where
  "is_letter c \<longleftrightarrow> (let n = (of_char c :: nat) in (65 \<le> n \<and> n \<le> 90) \<or> (97 \<le> n \<and> n \<le> 122))"

definition is_digit :: "char \<Rightarrow> bool" where
  "is_digit c \<longleftrightarrow> (let n = (of_char c :: nat) in 48 \<le> n \<and> n \<le> 57)"

text \<open>
  Modelled from the spec: the shape of an identifier, for \<^verbatim>\<open>PYTHON_IDENTIFIER\<close> of
  \<^verbatim>\<open>sacred.utils\<close>: a letter or an underscore, then letters, digits and underscores.
\<close>

definition identifier_shaped :: "string \<Rightarrow> bool" where
  "identifier_shaped s =
     (case s of
        [] \<Rightarrow> False
      | c # cs \<Rightarrow> (is_letter c \<or> c = CHR ''_'')
                  \<and> list_all (\<lambda>d. is_letter d \<or> is_digit d \<or> d = CHR ''_'') cs)"

text \<open>
  Modelled from the spec: \<^verbatim>\<open>PYTHON_IDENTIFIER.match(key)\<close>, with \<^verbatim>\<open>PYTHON_IDENTIFIER\<close>
  of \<^verbatim>\<open>sacred.utils\<close>. A key matches when it is identifier-shaped and does not begin
  with the private-name marker.
\<close>

definition PYTHON_IDENTIFIER_match :: "string \<Rightarrow> bool" where
  "PYTHON_IDENTIFIER_match s \<longleftrightarrow> identifier_shaped s \<and> \<not> startswith_underscore s"

text \<open>
  \<^verbatim>\<open>ConfigDict.__init__\<close>: the loop over \<^verbatim>\<open>d.items()\<close>, with \<^verbatim>\<open>self._conf\<close> as the
  accumulator. The keys of \<^verbatim>\<open>d\<close> are arbitrary values, since the constructor itself
  checks that they are strings.
\<close>

fun ConfigDict_init_loop :: "(val \<times> val) list \<Rightarrow> dict \<Rightarrow> error + dict" where
  "ConfigDict_init_loop [] conf = Inr conf"
| "ConfigDict_init_loop ((VStr key, v) # rest) conf =
     (if \<not> PYTHON_IDENTIFIER_match key then Inl (KeyError_invalid_key (VStr key))
      else (case v of
              VNpBool b \<Rightarrow> ConfigDict_init_loop rest (AList.update key (VBool b) conf)
            | _ \<Rightarrow>
                if json_dumps_ok v
                then ConfigDict_init_loop rest (AList.update key (undogmatize_value v) conf)
                else Inl (ValueError_invalid_value key)))"
| "ConfigDict_init_loop ((key, v) # rest) conf = Inl (KeyError_invalid_key key)"

definition ConfigDict_init :: "(val \<times> val) list \<Rightarrow> error + entry" where
  "ConfigDict_init d =
     (case ConfigDict_init_loop d [] of
        Inl err \<Rightarrow> Inl err
      | Inr conf \<Rightarrow> Inr (ConfigDict conf))"

text \<open>
  \<^verbatim>\<open>ConfigDict.__call__\<close>, for a call that passes a mapping as \<^verbatim>\<open>preset\<close>. What
  \<^verbatim>\<open>result.update(None)\<close> does is decided by the namespace class, which is not among
  the source files and which the specification does not describe for a missing preset.
\<close>

definition ConfigDict_call ::
  "dict \<Rightarrow> dict option \<Rightarrow> dict \<Rightarrow> dict option \<Rightarrow> error + ConfigSummary" where
  "ConfigDict_call conf fixed preset fallback_arg =
     (let result = dogmatize (or_empty fixed);
          result = ns_update result preset;
          result = ns_update result conf
      in Inr \<lparr>entries = dict_update [] (undogmatize result),
              added_values = revelation result,
              ignored_fallback_writes = [],
              modified = ns_modified result,
              typechanges = ns_typechanges result\<rparr>)"

subsection \<open>ConfigScope\<close>

text \<open>
  The loop over \<^verbatim>\<open>self.arg_spec.args\<close>; the accumulators are \<^verbatim>\<open>cfg_locals\<close> and
  \<^verbatim>\<open>fallback_view\<close>. The last branch cannot be reached: the parameter is in
  \<^verbatim>\<open>available_entries\<close> and not in \<^verbatim>\<open>preset\<close>.
\<close>

fun bind_args ::
  "string list \<Rightarrow> dict \<Rightarrow> dict \<Rightarrow> tracking_namespace \<Rightarrow> dict
     \<Rightarrow> error + tracking_namespace \<times> dict" where
  "bind_args [] preset fallback_arg cfg_locals fallback_view = Inr (cfg_locals, fallback_view)"
| "bind_args (arg # rest) preset fallback_arg cfg_locals fallback_view =
     (let available_entries = keys preset \<union> keys fallback_arg in
      if arg \<notin> available_entries then Inl (KeyError_unresolved arg available_entries)
      else (case map_of preset arg of
              Some v \<Rightarrow>
                bind_args rest preset fallback_arg (ns_setitem cfg_locals arg v) fallback_view
            | None \<Rightarrow>
                (case map_of fallback_arg arg of
                   Some v \<Rightarrow>
                     bind_args rest preset fallback_arg cfg_locals
                       (AList.update arg v fallback_view)
                 | None \<Rightarrow> Inl (KeyError_unresolved arg available_entries))))"

text \<open>The namespace the body runs in: lines 191 to 208 of the source.\<close>

definition scope_locals ::
  "string list \<Rightarrow> dict option \<Rightarrow> dict option \<Rightarrow> dict option \<Rightarrow> error + tracking_namespace" where
  "scope_locals args fixed preset fallback_arg =
     (case bind_args args (or_empty preset) (or_empty fallback_arg)
             (dogmatize (or_empty fixed)) [] of
        Inl err \<Rightarrow> Inl err
      | Inr (cfg_locals, fallback_view) \<Rightarrow> Inr (cfg_locals\<lparr>fallback := fallback_view\<rparr>))"

text \<open>The namespace after the body has run: line 209.\<close>

definition scope_executed ::
  "string list \<Rightarrow> stmt list \<Rightarrow> dict option \<Rightarrow> dict option \<Rightarrow> dict option
     \<Rightarrow> error + tracking_namespace" where
  "scope_executed args body fixed preset fallback_arg =
     (case scope_locals args fixed preset fallback_arg of
        Inl err \<Rightarrow> Inl err
      | Inr cfg_locals \<Rightarrow> exec_body body cfg_locals)"

text \<open>
  The harvest loop over \<^verbatim>\<open>cfg_locals.items()\<close> (lines 220 to 231), with the mapping of
  the summary as the accumulator.
\<close>

definition harvest_item :: "string \<times> val \<Rightarrow> dict \<Rightarrow> dict" where
  "harvest_item kv config_summary =
     (if startswith_underscore (fst kv) then config_summary
      else (case snd kv of
              VNpBool b \<Rightarrow> AList.update (fst kv) (VBool b) config_summary
            | v \<Rightarrow>
                if json_dumps_ok v
                then AList.update (fst kv) (undogmatize_value v) config_summary
                else config_summary))"

definition harvest :: "dict \<Rightarrow> dict" where
  "harvest cfg_items = fold harvest_item cfg_items []"

text \<open>
  \<^verbatim>\<open>ConfigScope.__call__\<close>. \<open>added_values\<close> is the set that \<^verbatim>\<open>revelation()\<close> returns
  before the fill-in; the other three fields of the summary are the namespace's own
  objects, so they are read from the namespace as it is when the call returns.
\<close>

definition ConfigScope_call ::
  "string list \<Rightarrow> stmt list \<Rightarrow> dict option \<Rightarrow> dict option \<Rightarrow> dict option
     \<Rightarrow> error + ConfigSummary" where
  "ConfigScope_call args body fixed preset fallback_arg =
     (case scope_executed args body fixed preset fallback_arg of
        Inl err \<Rightarrow> Inl err
      | Inr cfg_locals \<Rightarrow>
          (let added = revelation cfg_locals in
           case recursive_fill_in_ns cfg_locals (or_empty preset) of
             Inl err \<Rightarrow> Inl err
           | Inr filled \<Rightarrow>
               Inr \<lparr>entries = harvest (primary filled),
                    added_values = added,
                    ignored_fallback_writes = ns_ignored_fallback_writes filled,
                    modified = ns_modified filled,
                    typechanges = ns_typechanges filled\<rparr>))"

section \<open>Chain evaluation\<close>

text \<open>The call \<^verbatim>\<open>config(fixed=fixed, preset=final_config, fallback=fallback)\<close>.\<close>

fun call_entry :: "entry \<Rightarrow> dict \<Rightarrow> dict \<Rightarrow> dict \<Rightarrow> error + ConfigSummary" where
  "call_entry (ConfigScope args body) fixed preset fallback_arg =
     ConfigScope_call args body (Some fixed) (Some preset) (Some fallback_arg)"
| "call_entry (ConfigDict conf) fixed preset fallback_arg =
     ConfigDict_call conf (Some fixed) preset (Some fallback_arg)"

fun chain_loop ::
  "entry list \<Rightarrow> dict \<Rightarrow> dict \<Rightarrow> dict \<Rightarrow> ConfigSummary list
     \<Rightarrow> error + dict \<times> ConfigSummary list" where
  "chain_loop [] fixed fallback_arg final_config config_summaries =
     Inr (final_config, config_summaries)"
| "chain_loop (config # rest) fixed fallback_arg final_config config_summaries =
     (case call_entry config fixed final_config fallback_arg of
        Inl err \<Rightarrow> Inl err
      | Inr cfg \<Rightarrow>
          chain_loop rest fixed fallback_arg
            (dict_update final_config (entries cfg)) (config_summaries @ [cfg]))"

definition chain_evaluate_config_scopes ::
  "entry list \<Rightarrow> dict option \<Rightarrow> dict option \<Rightarrow> dict option
     \<Rightarrow> error + dict \<times> ConfigSummary list" where
  "chain_evaluate_config_scopes config_scopes fixed preset fallback_arg =
     (case chain_loop config_scopes (or_empty fixed) (or_empty fallback_arg)
             (or_empty preset) [] of
        Inl err \<Rightarrow> Inl err
      | Inr (final_config, config_summaries) \<Rightarrow>
          Inr (undogmatize_dict
                 (if config_scopes = [] then dict_update final_config (or_empty fixed)
                  else final_config),
               config_summaries))"

section \<open>Properties of the source extractor\<close>

lemma first_mismatch_None:
  "first_mismatch i (zip line indent) = None \<Longrightarrow>
     drop (length indent) line = drop (length (longest_common_prefix line indent)) line"
  by (induction line indent arbitrary: i rule: longest_common_prefix.induct)
     (auto split: if_splits)

lemma first_mismatch_Some:
  "first_mismatch i (zip line indent) = Some j \<Longrightarrow>
     j = i + length (longest_common_prefix line indent)"
  by (induction line indent arbitrary: i rule: longest_common_prefix.induct)
     (fastforce split: if_splits)+

lemma dedent_line_common_prefix:
  "dedent_line line indent = drop (length (longest_common_prefix line indent)) line"
  using first_mismatch_None [of 0 line indent] first_mismatch_Some [of 0 line indent]
  by (auto simp: dedent_line_def split: option.splits)

lemma common_prefix_append_drop:
  "longest_common_prefix line indent @ drop (length (longest_common_prefix line indent)) line = line"
  by (induction line indent rule: longest_common_prefix.induct) auto

lemma common_prefix_of_prefix:
  "prefix indent line \<Longrightarrow> longest_common_prefix line indent = indent"
  by (induction line indent rule: longest_common_prefix.induct) auto

lemma split_nl_nonempty: "split_nl s \<noteq> []"
  by (induction s) (auto split: list.splits)

lemma split_nl_no_newline: "l \<in> set (split_nl s) \<Longrightarrow> CHR 0x0A \<notin> set l"
  by (induction s arbitrary: l) (auto split: list.splits if_splits simp: split_nl_nonempty)

lemma split_nl_single: "CHR 0x0A \<notin> set l \<Longrightarrow> split_nl l = [l]"
  by (induction l) auto

lemma split_nl_append:
  "CHR 0x0A \<notin> set l \<Longrightarrow> split_nl (l @ CHR 0x0A # rest) = l # split_nl rest"
  by (induction l) (auto split: list.splits)

lemma split_join_nl:
  "ls \<noteq> [] \<Longrightarrow> \<forall>l\<in>set ls. CHR 0x0A \<notin> set l \<Longrightarrow> split_nl (join_nl ls) = ls"
  by (induction ls rule: join_nl.induct) (auto simp: split_nl_single split_nl_append)

lemma dedent_line_no_newline: "CHR 0x0A \<notin> set line \<Longrightarrow> CHR 0x0A \<notin> set (dedent_line line indent)"
  by (auto simp: dedent_line_def Let_def dest: in_set_dropD)

lemma find_indent_filter:
  "find_indent lines =
     (case filter (\<lambda>l. \<not> is_empty_or_comment l) lines of
        [] \<Rightarrow> []
      | l # rest \<Rightarrow> takeWhile is_space l)"
  by (induction lines) auto

text \<open>
  Claim C9, as amended. The indentation is the leading whitespace of the first line that is
  neither blank nor a comment (empty when there is none), and the dedented body consists
  of the lines of the body, each without the longest prefix it shares with the
  indentation. A line that starts with the indentation loses exactly the indentation;
  any other line (an empty line, a comment in column 0) loses only the shared part.
\<close>

theorem dedent_function_body_lines:
  "split_nl (dedent_function_body body) =
     map (\<lambda>line. drop (length (longest_common_prefix line (find_indent (split_nl body)))) line)
       (split_nl body)
   \<and> find_indent (split_nl body) =
       (case filter (\<lambda>l. \<not> is_empty_or_comment l) (split_nl body) of
          [] \<Rightarrow> []
        | l # rest \<Rightarrow> takeWhile is_space l)
   \<and> (\<forall>line indent. prefix indent line \<longrightarrow> indent @ dedent_line line indent = line)
   \<and> (\<forall>line indent. longest_common_prefix line indent @ dedent_line line indent = line)"
proof -
  let ?lines = "split_nl body"
  let ?indent = "find_indent ?lines"
  let ?out = "map (\<lambda>line. dedent_line line ?indent) ?lines"
  have "?out \<noteq> []" by (simp add: split_nl_nonempty)
  moreover have "\<forall>l\<in>set ?out. CHR 0x0A \<notin> set l"
    by (auto simp: dedent_line_no_newline split_nl_no_newline)
  ultimately have "split_nl (join_nl ?out) = ?out" by (rule split_join_nl)
  then have 1: "split_nl (dedent_function_body body) =
     map (\<lambda>line. drop (length (longest_common_prefix line ?indent)) line) ?lines"
    by (simp add: dedent_function_body_def Let_def dedent_line_common_prefix)
  have 3: "\<forall>line indent. prefix indent line \<longrightarrow> indent @ dedent_line line indent = line"
    by (auto simp: dedent_line_common_prefix common_prefix_of_prefix prefix_def)
  have 4: "\<forall>line indent. longest_common_prefix line indent @ dedent_line line indent = line"
    by (simp add: dedent_line_common_prefix common_prefix_append_drop)
  from 1 3 4 find_indent_filter [of ?lines] show ?thesis by blast
qed

text \<open>A body with a comment in column 0 and an empty line, dedented by four blanks.\<close>

theorem dedent_function_body_lines_witness:
  "split_nl (dedent_function_body ''    a = 1\<newline># note\<newline>\<newline>    b = 2'') =
     [''a = 1'', ''# note'', '''', ''b = 2'']
   \<and> find_indent (split_nl ''    a = 1\<newline># note\<newline>\<newline>    b = 2'') = ''    ''
   \<and> prefix ''    '' ''    b = 2''
   \<and> ''    '' @ dedent_line ''    b = 2'' ''    '' = ''    b = 2''"
  using dedent_function_body_lines [of "''    a = 1\<newline># note\<newline>\<newline>    b = 2''"]
  by (simp add: is_empty_or_comment_def strip_def is_space_def dedent_line_def)

text \<open>
  Claim C9 as stated fails: with the indentation of four blanks, the comment line in
  column 0 does not start with the indentation and is returned unchanged.
\<close>

theorem dedent_function_body_counterexample:
  "find_indent (split_nl ''    a = 1\<newline># note\<newline>    b = 2'') = ''    ''
   \<and> dedent_function_body ''    a = 1\<newline># note\<newline>    b = 2'' = ''a = 1\<newline># note\<newline>b = 2''
   \<and> \<not> prefix ''    '' ''# note''"
  by (simp add: dedent_function_body_def dedent_line_def is_empty_or_comment_def strip_def
        is_space_def)

section \<open>Properties of plain mappings\<close>

lemma undogmatize_dict_id: "undogmatize_dict d = d"
  by (simp add: undogmatize_dict_def undogmatize_value_def)

lemma map_of_fold_update:
  "distinct (map fst other) \<Longrightarrow>
     map_of (fold (\<lambda>kv acc. AList.update (fst kv) (snd kv) acc) other d) = map_of d ++ map_of other"
proof (induction other arbitrary: d)
  case Nil
  then show ?case by simp
next
  case (Cons kv other)
  then have "map_of other (fst kv) = None"
    by (cases kv) (auto simp: map_of_eq_None_iff)
  with Cons show ?case
    by (cases kv) (auto simp: update_conv' map_add_def fun_eq_iff split: option.splits)
qed

lemma map_of_dict_update:
  "distinct (map fst other) \<Longrightarrow> map_of (dict_update d other) = map_of d ++ map_of other"
  by (simp add: dict_update_def map_of_fold_update)

section \<open>Properties of the chain evaluator\<close>

text \<open>
  Claim C8. With an empty sequence of entries the chain evaluator returns the starting
  preset (empty if none) updated with \<^verbatim>\<open>fixed\<close>, and an empty list of summaries; on
  every key of \<^verbatim>\<open>fixed\<close> the value of \<^verbatim>\<open>fixed\<close> is the one returned.
\<close>

theorem chain_evaluate_empty:
  "chain_evaluate_config_scopes [] fixed preset fallback_arg =
     Inr (dict_update (or_empty preset) (or_empty fixed), [])
   \<and> (distinct (map fst (or_empty fixed)) \<longrightarrow>
        map_of (dict_update (or_empty preset) (or_empty fixed)) =
          map_of (or_empty preset) ++ map_of (or_empty fixed))"
  by (simp add: chain_evaluate_config_scopes_def undogmatize_dict_id map_of_dict_update)

text \<open>The preset \<^verbatim>\<open>{a: 1, b: 1}\<close> under the fixed values \<^verbatim>\<open>{a: 2, c: 3}\<close>.\<close>

theorem chain_evaluate_empty_witness:
  "distinct (map fst (or_empty (Some [(''a'', VInt 2), (''c'', VInt 3)])))
   \<and> chain_evaluate_config_scopes [] (Some [(''a'', VInt 2), (''c'', VInt 3)])
        (Some [(''a'', VInt 1), (''b'', VInt 1)]) None =
       Inr ([(''a'', VInt 2), (''b'', VInt 1), (''c'', VInt 3)], [])
   \<and> map_of (dict_update (or_empty (Some [(''a'', VInt 1), (''b'', VInt 1)]))
               (or_empty (Some [(''a'', VInt 2), (''c'', VInt 3)]))) ''a'' = Some (VInt 2)"
  using chain_evaluate_empty [of "Some [(''a'', VInt 2), (''c'', VInt 3)]"
      "Some [(''a'', VInt 1), (''b'', VInt 1)]" None]
  by (simp add: or_empty_def dict_update_def)

section \<open>Properties of the namespace\<close>

lemma keys_update [simp]: "keys (AList.update k v d) = insert k (keys d)"
  by (simp add: keys_def dom_update)

lemma map_of_None_keys: "map_of d k = None \<longleftrightarrow> k \<notin> keys d"
  by (simp add: keys_def map_of_eq_None_iff)

lemma map_of_Some_keys: "map_of d k = Some v \<Longrightarrow> k \<in> keys d"
  by (auto simp: keys_def dest: map_of_SomeD intro: rev_image_eqI)

lemma ns_setitem_authoritative [simp]: "authoritative (ns_setitem ns k v) = authoritative ns"
  by (simp add: ns_setitem_def)

lemma ns_setitem_fallback [simp]: "fallback (ns_setitem ns k v) = fallback ns"
  by (simp add: ns_setitem_def)

lemma ns_setitem_distinct:
  "distinct (map fst (primary ns)) \<Longrightarrow> distinct (map fst (primary (ns_setitem ns k v)))"
  by (simp add: ns_setitem_def distinct_update)

lemma ns_setitem_primary:
  "map_of (primary (ns_setitem ns k v)) k' =
     (if k \<in> keys (authoritative ns) \<or> k' \<noteq> k then map_of (primary ns) k' else Some v)"
  by (simp add: ns_setitem_def update_conv')

lemma ns_setitem_keys:
  "keys (primary (ns_setitem ns k v)) =
     (if k \<in> keys (authoritative ns) then keys (primary ns) else insert k (keys (primary ns)))"
  by (simp add: ns_setitem_def)

text \<open>A property that every write keeps also holds after each loop of the evaluation.\<close>

lemma bind_args_preserves:
  assumes "bind_args args preset fb cfg fv = Inr (cfg', fv')"
    and "P cfg"
    and "\<And>ns k v. P ns \<Longrightarrow> P (ns_setitem ns k v)"
  shows "P cfg'"
  using assms(1,2)
proof (induction args arbitrary: cfg fv)
  case Nil
  then show ?case by simp
next
  case (Cons arg rest)
  then show ?case
    by (auto simp: Let_def assms(3) split: if_splits option.splits)
qed

lemma exec_body_preserves:
  assumes "exec_body body ns = Inr ns'"
    and "P ns"
    and "\<And>ns k v. P ns \<Longrightarrow> P (ns_setitem ns k v)"
  shows "P ns'"
  using assms(1,2)
proof (induction body arbitrary: ns)
  case Nil
  then show ?case by simp
next
  case (Cons s ss)
  obtain x e where s: "s = Assign x e" by (cases s)
  from Cons show ?case
    by (auto simp: s assms(3) split: sum.splits)
qed

lemma recursive_fill_in_ns_preserves:
  assumes "recursive_fill_in_ns ns preset = Inr ns'"
    and "P ns"
    and "\<And>ns k v. P ns \<Longrightarrow> P (ns_setitem ns k v)"
    and "\<And>ns k sub sub'. P ns \<Longrightarrow> map_of (primary ns) k = Some (VDict sub) \<Longrightarrow>
           P (ns\<lparr>primary := AList.update k (VDict sub') (primary ns)\<rparr>)"
  shows "P ns'"
  using assms(1,2)
proof (induction preset arbitrary: ns)
  case Nil
  then show ?case by simp
next
  case (Cons kv rest)
  obtain key pv where kv: "kv = (key, pv)" by (cases kv)
  from Cons show ?case
    by (auto simp: kv assms(3,4) split: option.splits val.splits sum.splits)
qed

lemma scope_executed_distinct:
  assumes "scope_executed args body fixed preset fb = Inr cfg"
    and "distinct (map fst (or_empty fixed))"
  shows "distinct (map fst (primary cfg))"
proof -
  from assms(1) obtain c0 fv where
    b: "bind_args args (or_empty preset) (or_empty fb) (dogmatize (or_empty fixed)) [] = Inr (c0, fv)"
    and e: "exec_body body (c0\<lparr>fallback := fv\<rparr>) = Inr cfg"
    by (auto simp: scope_executed_def scope_locals_def split: sum.splits)
  have "distinct (map fst (primary c0))"
    by (rule bind_args_preserves [where P = "\<lambda>ns. distinct (map fst (primary ns))", OF b])
       (simp_all add: dogmatize_def assms(2) ns_setitem_distinct)
  then have "distinct (map fst (primary (c0\<lparr>fallback := fv\<rparr>)))" by simp
  with e show ?thesis
    by (rule exec_body_preserves [where P = "\<lambda>ns. distinct (map fst (primary ns))"])
       (simp add: ns_setitem_distinct)
qed

lemma recursive_fill_in_ns_distinct:
  assumes "recursive_fill_in_ns ns preset = Inr ns'" and "distinct (map fst (primary ns))"
  shows "distinct (map fst (primary ns'))"
  by (rule recursive_fill_in_ns_preserves
        [where P = "\<lambda>ns. distinct (map fst (primary ns))", OF assms])
     (simp_all add: ns_setitem_distinct distinct_update)

section \<open>Properties of the harvest\<close>

lemma map_of_harvest_item:
  "map_of (harvest_item (k', v) acc) k =
     (if k = k' \<and> \<not> startswith_underscore k
      then (case v of
              VNpBool b \<Rightarrow> Some (VBool b)
            | _ \<Rightarrow> if json_dumps_ok v then Some v else map_of acc k)
      else map_of acc k)"
  by (cases v) (auto simp: harvest_item_def update_conv' undogmatize_value_def)

lemma map_of_fold_harvest_item:
  "distinct (map fst kvs) \<Longrightarrow>
     map_of (fold harvest_item kvs acc) k =
       (case map_of kvs k of
          None \<Rightarrow> map_of acc k
        | Some v \<Rightarrow>
            if startswith_underscore k then map_of acc k
            else (case v of
                    VNpBool b \<Rightarrow> Some (VBool b)
                  | _ \<Rightarrow> if json_dumps_ok v then Some v else map_of acc k))"
proof (induction kvs arbitrary: acc)
  case Nil
  then show ?case by simp
next
  case (Cons kv kvs)
  obtain k' v' where kv: "kv = (k', v')" by (cases kv)
  from Cons.prems have notin: "map_of kvs k' = None"
    by (auto simp: kv map_of_eq_None_iff)
  from Cons.prems have d: "distinct (map fst kvs)" by simp
  show ?case
  proof (cases "k = k'")
    case True
    with notin kv have "map_of kvs k = None" and "kv = (k, v')" by simp_all
    then show ?thesis
      by (cases v') (simp_all add: Cons.IH [OF d] map_of_harvest_item)
  next
    case False
    then have "map_of (harvest_item (k', v') acc) k = map_of acc k"
      by (simp add: map_of_harvest_item)
    with False show ?thesis
      by (simp add: kv Cons.IH [OF d] split: option.splits val.splits)
  qed
qed

lemma map_of_harvest:
  "distinct (map fst kvs) \<Longrightarrow>
     map_of (harvest kvs) k =
       (case map_of kvs k of
          None \<Rightarrow> None
        | Some v \<Rightarrow>
            if startswith_underscore k then None
            else (case v of
                    VNpBool b \<Rightarrow> Some (VBool b)
                  | _ \<Rightarrow> if json_dumps_ok v then Some v else None))"
  by (simp add: harvest_def map_of_fold_harvest_item split: option.splits val.splits)




section \<open>Properties of the scope evaluator\<close>

lemma bind_args_unresolved:
  assumes "a \<in> set args" and "a \<notin> keys preset \<union> keys fb"
  shows "\<exists>m. find (\<lambda>x. x \<notin> keys preset \<union> keys fb) args = Some m
           \<and> bind_args args preset fb cfg fv = Inl (KeyError_unresolved m (keys preset \<union> keys fb))"
  using assms(1)
proof (induction args arbitrary: cfg fv)
  case Nil
  then show ?case by simp
next
  case (Cons arg rest)
  show ?case
  proof (cases "arg \<in> keys preset \<union> keys fb")
    case False
    then show ?thesis by simp
  next
    case True
    with Cons.prems assms(2) have "a \<in> set rest" by auto
    from Cons.IH [OF this] True show ?thesis
      by (auto simp: Let_def map_of_None_keys split: option.splits)
  qed
qed

text \<open>
  Claim C5. When some declared parameter is in neither \<^verbatim>\<open>preset\<close> nor
  \<^verbatim>\<open>fallback\<close>, the call raises the \<^verbatim>\<open>KeyError\<close> built from the first such parameter
  and from the union of the key names of \<^verbatim>\<open>preset\<close> and \<^verbatim>\<open>fallback\<close>, whatever the
  body is: the body is not run.
\<close>

theorem ConfigScope_call_unresolved:
  assumes "a \<in> set args"
    and "a \<notin> keys (or_empty preset) \<union> keys (or_empty fallback_arg)"
  shows "\<exists>m. find (\<lambda>x. x \<notin> keys (or_empty preset) \<union> keys (or_empty fallback_arg)) args = Some m
           \<and> (\<forall>body. ConfigScope_call args body fixed preset fallback_arg =
                 Inl (KeyError_unresolved m
                        (keys (or_empty preset) \<union> keys (or_empty fallback_arg))))"
proof -
  from bind_args_unresolved [OF assms, of "dogmatize (or_empty fixed)" "[]"]
  obtain m where
    m: "find (\<lambda>x. x \<notin> keys (or_empty preset) \<union> keys (or_empty fallback_arg)) args = Some m"
    and b: "bind_args args (or_empty preset) (or_empty fallback_arg) (dogmatize (or_empty fixed)) [] =
        Inl (KeyError_unresolved m (keys (or_empty preset) \<union> keys (or_empty fallback_arg)))"
    by blast
  from b have "\<forall>body. ConfigScope_call args body fixed preset fallback_arg =
      Inl (KeyError_unresolved m (keys (or_empty preset) \<union> keys (or_empty fallback_arg)))"
    by (simp add: ConfigScope_call_def scope_executed_def scope_locals_def)
  with m show ?thesis by blast
qed

text \<open>
  The second of three parameters is missing (it is a key of \<^verbatim>\<open>fixed\<close> only), and the
  body would raise if it ran.
\<close>

theorem ConfigScope_call_unresolved_witness:
  "''seed'' \<in> set [''a'', ''seed'', ''zz'']
   \<and> ''seed'' \<notin> keys (or_empty (Some [(''a'', VInt 1)])) \<union> keys (or_empty (Some [(''log'', VNone)]))
   \<and> ConfigScope_call [''a'', ''seed'', ''zz''] [Assign ''b'' (\<lambda>env. Inl (Raised ''ZeroDivisionError''))]
        (Some [(''seed'', VInt 7)]) (Some [(''a'', VInt 1)]) (Some [(''log'', VNone)]) =
       Inl (KeyError_unresolved ''seed'' {''a'', ''log''})"
  using ConfigScope_call_unresolved [of "''seed''" "[''a'', ''seed'', ''zz'']" "Some [(''a'', VInt 1)]"
      "Some [(''log'', VNone)]" "Some [(''seed'', VInt 7)]"]
  by (auto simp: or_empty_def keys_def)


section \<open>Properties of the literal entry\<close>

lemma ConfigDict_init_loop_good:
  "\<forall>kv \<in> set d. (\<exists>s. fst kv = VStr s \<and> identifier_shaped s \<and> \<not> startswith_underscore s)
                  \<and> ((\<exists>b. snd kv = VNpBool b) \<or> json_dumps_ok (snd kv))
   \<Longrightarrow> \<exists>conf'. ConfigDict_init_loop d conf = Inr conf'"
proof (induction d arbitrary: conf)
  case Nil
  then show ?case by simp
next
  case (Cons kv d)
  then obtain s v where kv: "kv = (VStr s, v)" and s: "identifier_shaped s" "\<not> startswith_underscore s"
    and v: "(\<exists>b. v = VNpBool b) \<or> json_dumps_ok v"
    by (cases kv) auto
  from Cons.prems have rest: "\<forall>kv \<in> set d. (\<exists>s. fst kv = VStr s \<and> identifier_shaped s \<and> \<not> startswith_underscore s)
                  \<and> ((\<exists>b. snd kv = VNpBool b) \<or> json_dumps_ok (snd kv))" by simp
  show ?case
    using v s Cons.IH [OF rest]
    by (cases v) (auto simp: kv PYTHON_IDENTIFIER_match_def)
qed

lemma ConfigDict_init_loop_bad_key:
  assumes "\<forall>kv \<in> set pre. (\<exists>s. fst kv = VStr s \<and> identifier_shaped s \<and> \<not> startswith_underscore s)
                  \<and> ((\<exists>b. snd kv = VNpBool b) \<or> json_dumps_ok (snd kv))"
    and "\<not> (\<exists>s. k = VStr s \<and> identifier_shaped s \<and> \<not> startswith_underscore s)"
  shows "ConfigDict_init_loop (pre @ (k, v) # post) conf = Inl (KeyError_invalid_key k)"
  using assms(1)
proof (induction pre arbitrary: conf)
  case Nil
  with assms(2) show ?case
    by (cases k) (auto simp: PYTHON_IDENTIFIER_match_def)
next
  case (Cons kv pre)
  then obtain s v' where kv: "kv = (VStr s, v')" and s: "identifier_shaped s" "\<not> startswith_underscore s"
    and v: "(\<exists>b. v' = VNpBool b) \<or> json_dumps_ok v'"
    by (cases kv) auto
  from Cons.prems have rest: "\<forall>kv \<in> set pre. (\<exists>s. fst kv = VStr s \<and> identifier_shaped s \<and> \<not> startswith_underscore s)
                  \<and> ((\<exists>b. snd kv = VNpBool b) \<or> json_dumps_ok (snd kv))" by simp
  show ?case
    using v s Cons.IH [OF rest]
    by (cases v') (auto simp: kv PYTHON_IDENTIFIER_match_def)
qed

lemma ConfigDict_init_loop_bad_value:
  assumes "\<forall>kv \<in> set pre. (\<exists>s. fst kv = VStr s \<and> identifier_shaped s \<and> \<not> startswith_underscore s)
                  \<and> ((\<exists>b. snd kv = VNpBool b) \<or> json_dumps_ok (snd kv))"
    and "identifier_shaped s" and "\<not> startswith_underscore s"
    and "\<not> ((\<exists>b. v = VNpBool b) \<or> json_dumps_ok v)"
  shows "ConfigDict_init_loop (pre @ (VStr s, v) # post) conf = Inl (ValueError_invalid_value s)"
  using assms(1)
proof (induction pre arbitrary: conf)
  case Nil
  with assms(2,3,4) show ?case
    by (cases v) (auto simp: PYTHON_IDENTIFIER_match_def)
next
  case (Cons kv pre)
  then obtain s' v' where kv: "kv = (VStr s', v')" and s: "identifier_shaped s'" "\<not> startswith_underscore s'"
    and v: "(\<exists>b. v' = VNpBool b) \<or> json_dumps_ok v'"
    by (cases kv) auto
  from Cons.prems have rest: "\<forall>kv \<in> set pre. (\<exists>s. fst kv = VStr s \<and> identifier_shaped s \<and> \<not> startswith_underscore s)
                  \<and> ((\<exists>b. snd kv = VNpBool b) \<or> json_dumps_ok (snd kv))" by simp
  show ?case
    using v s Cons.IH [OF rest]
    by (cases v') (auto simp: kv PYTHON_IDENTIFIER_match_def)
qed

text \<open>
  Claim C6. Constructing a \<^verbatim>\<open>ConfigDict\<close> succeeds exactly when every key is an
  identifier-shaped string that does not begin with an underscore and every value is a
  numpy boolean or is accepted by \<^verbatim>\<open>json.dumps\<close>. Otherwise the first item that fails a
  check decides the error: a \<^verbatim>\<open>KeyError\<close> built from the key when the key is bad, and a
  \<^verbatim>\<open>ValueError\<close> built from the key when the key is good and the value is bad.
\<close>

theorem ConfigDict_init_validation:
  "((\<forall>kv \<in> set d. (\<exists>s. fst kv = VStr s \<and> identifier_shaped s \<and> \<not> startswith_underscore s)
                    \<and> ((\<exists>b. snd kv = VNpBool b) \<or> json_dumps_ok (snd kv)))
      \<longleftrightarrow> (\<exists>conf. ConfigDict_init d = Inr (ConfigDict conf)))
   \<and> ((\<forall>kv \<in> set pre. (\<exists>s. fst kv = VStr s \<and> identifier_shaped s \<and> \<not> startswith_underscore s)
                      \<and> ((\<exists>b. snd kv = VNpBool b) \<or> json_dumps_ok (snd kv)))
        \<and> \<not> (\<exists>s. k = VStr s \<and> identifier_shaped s \<and> \<not> startswith_underscore s)
      \<longrightarrow> ConfigDict_init (pre @ (k, v) # post) = Inl (KeyError_invalid_key k))
   \<and> ((\<forall>kv \<in> set pre. (\<exists>s. fst kv = VStr s \<and> identifier_shaped s \<and> \<not> startswith_underscore s)
                      \<and> ((\<exists>b. snd kv = VNpBool b) \<or> json_dumps_ok (snd kv)))
        \<and> identifier_shaped key \<and> \<not> startswith_underscore key
        \<and> \<not> ((\<exists>b. v = VNpBool b) \<or> json_dumps_ok v)
      \<longrightarrow> ConfigDict_init (pre @ (VStr key, v) # post) = Inl (ValueError_invalid_value key))"
proof -
  let ?good = "\<lambda>kv. (\<exists>s. fst kv = VStr s \<and> identifier_shaped s \<and> \<not> startswith_underscore s)
                    \<and> ((\<exists>b. snd kv = VNpBool b) \<or> json_dumps_ok (snd kv))"
  have ok: "\<exists>conf. ConfigDict_init d = Inr (ConfigDict conf)" if "\<forall>kv \<in> set d. ?good kv"
    using ConfigDict_init_loop_good [OF that, of "[]"] by (auto simp: ConfigDict_init_def)
  have bad: "\<not> (\<exists>conf. ConfigDict_init d = Inr (ConfigDict conf))" if "\<not> (\<forall>kv \<in> set d. ?good kv)"
  proof -
    from that have "\<exists>kv \<in> set d. \<not> ?good kv" by blast
    from split_list_first_prop [OF this] obtain ys kv zs where
      d: "d = ys @ kv # zs" and kv: "\<not> ?good kv" and ys: "\<forall>y \<in> set ys. ?good y"
      by blast
    obtain k' v' where p: "kv = (k', v')" by (cases kv)
    show ?thesis
    proof (cases "\<exists>s. k' = VStr s \<and> identifier_shaped s \<and> \<not> startswith_underscore s")
      case False
      from ConfigDict_init_loop_bad_key [OF ys False, of v' zs "[]"] show ?thesis
        by (simp add: d p ConfigDict_init_def)
    next
      case True
      then obtain s where s: "k' = VStr s" "identifier_shaped s" "\<not> startswith_underscore s"
        by blast
      with kv p have "\<not> ((\<exists>b. v' = VNpBool b) \<or> json_dumps_ok v')" by simp
      from ConfigDict_init_loop_bad_value [OF ys s(2,3) this, of zs "[]"] show ?thesis
        by (simp add: d p s(1) ConfigDict_init_def)
    qed
  qed
  have 2: "ConfigDict_init (pre @ (k, v) # post) = Inl (KeyError_invalid_key k)"
    if "\<forall>kv \<in> set pre. ?good kv"
      and "\<not> (\<exists>s. k = VStr s \<and> identifier_shaped s \<and> \<not> startswith_underscore s)"
    using ConfigDict_init_loop_bad_key [OF that, of v post "[]"] by (simp add: ConfigDict_init_def)
  have 3: "ConfigDict_init (pre @ (VStr key, v) # post) = Inl (ValueError_invalid_value key)"
    if "\<forall>kv \<in> set pre. ?good kv" and "identifier_shaped key" and "\<not> startswith_underscore key"
      and "\<not> ((\<exists>b. v = VNpBool b) \<or> json_dumps_ok v)"
    using ConfigDict_init_loop_bad_value [OF that, of post "[]"] by (simp add: ConfigDict_init_def)
  from ok bad 2 3 show ?thesis by blast
qed

text \<open>A private key, a list that holds a numpy boolean, and a numpy boolean itself.\<close>

theorem ConfigDict_init_validation_witness:
  "ConfigDict_init [(VStr ''lr'', VInt 1), (VStr ''_private'', VInt 1)] =
     Inl (KeyError_invalid_key (VStr ''_private''))
   \<and> ConfigDict_init [(VStr ''lr'', VInt 1), (VStr ''hook'', VList [VNpBool True])] =
       Inl (ValueError_invalid_value ''hook'')
   \<and> (\<exists>conf. ConfigDict_init [(VStr ''lr'', VInt 1), (VStr ''on'', VNpBool True)] =
        Inr (ConfigDict conf))"
proof -
  have ident: "identifier_shaped ''lr''" "identifier_shaped ''hook''" "identifier_shaped ''on''"
    by (simp_all add: identifier_shaped_def is_letter_def is_digit_def)
  have under: "\<not> startswith_underscore ''lr''" "\<not> startswith_underscore ''hook''"
    "\<not> startswith_underscore ''on''" "startswith_underscore ''_private''"
    by (simp_all add: startswith_underscore_def)
  have 1: "ConfigDict_init ([(VStr ''lr'', VInt 1)] @ (VStr ''_private'', VInt 1) # []) =
     Inl (KeyError_invalid_key (VStr ''_private''))"
    using ConfigDict_init_validation [where pre = "[(VStr ''lr'', VInt 1)]"
        and k = "VStr ''_private''" and v = "VInt 1" and post = "[]"]
      ident under by simp
  have 2: "ConfigDict_init ([(VStr ''lr'', VInt 1)] @ (VStr ''hook'', VList [VNpBool True]) # []) =
       Inl (ValueError_invalid_value ''hook'')"
    using ConfigDict_init_validation [where pre = "[(VStr ''lr'', VInt 1)]"
        and key = "''hook''" and v = "VList [VNpBool True]" and post = "[]"]
      ident under by simp
  have 3: "\<exists>conf. ConfigDict_init [(VStr ''lr'', VInt 1), (VStr ''on'', VNpBool True)] =
        Inr (ConfigDict conf)"
    using ConfigDict_init_validation
        [where d = "[(VStr ''lr'', VInt 1), (VStr ''on'', VNpBool True)]", THEN conjunct1]
      ident under by auto
  from 1 2 3 show ?thesis by simp
qed


section \<open>Properties of the namespace during an evaluation\<close>

lemma keys_Nil [simp]: "keys [] = {}"
  by (simp add: keys_def)

lemma keys_Cons [simp]: "keys (kv # d) = insert (fst kv) (keys d)"
  by (simp add: keys_def)

lemma ns_setitem_modified_mono: "k \<in> ns_modified ns \<Longrightarrow> k \<in> ns_modified (ns_setitem ns k' v)"
  by (simp add: ns_setitem_def)

lemma ns_setitem_modified_fixed:
  "k \<in> keys (authoritative ns) \<Longrightarrow> k \<in> ns_modified (ns_setitem ns k v)"
  by (simp add: ns_setitem_def)

lemma ns_setitem_keeps_fixed:
  "k \<in> keys (authoritative ns) \<Longrightarrow> map_of (primary (ns_setitem ns k' v)) k = map_of (primary ns) k"
  by (auto simp: ns_setitem_primary)

lemma ns_setitem_subset:
  "keys (authoritative ns) \<subseteq> keys (primary ns) \<Longrightarrow>
     keys (authoritative (ns_setitem ns k v)) \<subseteq> keys (primary (ns_setitem ns k v))"
  by (auto simp: ns_setitem_keys)

text \<open>The loop over the declared parameters.\<close>

lemma bind_args_same_preset:
  "map_of preset = map_of preset' \<Longrightarrow>
     bind_args args preset fb cfg fv = bind_args args preset' fb cfg fv"
proof (induction args arbitrary: cfg fv)
  case Nil
  then show ?case by simp
next
  case (Cons arg rest)
  from Cons.prems have "keys preset = keys preset'"
    by (metis dom_map_of_conv_image_fst keys_def)
  with Cons show ?case
    by (simp add: Let_def split: option.splits)
qed

lemma bind_args_keys:
  "bind_args args preset fb cfg fv = Inr (cfg', fv') \<Longrightarrow>
     keys (primary cfg') = keys (primary cfg) \<union> ({a \<in> set args. a \<in> keys preset} - keys (authoritative cfg))
     \<and> keys fv' = keys fv \<union> {a \<in> set args. a \<notin> keys preset}
     \<and> authoritative cfg' = authoritative cfg
     \<and> fallback cfg' = fallback cfg"
proof (induction args arbitrary: cfg fv)
  case Nil
  then show ?case by simp
next
  case (Cons arg rest)
  show ?case
  proof (cases "map_of preset arg")
    case None
    with Cons.prems obtain v where
      "bind_args rest preset fb cfg (AList.update arg v fv) = Inr (cfg', fv')"
      by (auto simp: Let_def split: if_splits option.splits)
    from Cons.IH [OF this] None show ?thesis
      by (auto simp: map_of_None_keys)
  next
    case (Some v)
    with Cons.prems have
      "bind_args rest preset fb (ns_setitem cfg arg v) fv = Inr (cfg', fv')"
      by (auto simp: Let_def split: if_splits)
    from Cons.IH [OF this] Some show ?thesis
      by (auto simp: ns_setitem_keys dest: map_of_Some_keys)
  qed
qed

lemma bind_args_view:
  "bind_args args preset fb cfg fv = Inr (cfg', fv') \<Longrightarrow> a \<notin> keys preset \<Longrightarrow>
     a \<in> set args \<or> map_of fv a = map_of fb a \<Longrightarrow> map_of fv' a = map_of fb a"
proof (induction args arbitrary: cfg fv)
  case Nil
  then show ?case by simp
next
  case (Cons arg rest)
  show ?case
  proof (cases "map_of preset arg")
    case None
    with Cons.prems(1) obtain v where v: "map_of fb arg = Some v"
      and b: "bind_args rest preset fb cfg (AList.update arg v fv) = Inr (cfg', fv')"
      by (auto simp: Let_def split: if_splits option.splits)
    from Cons.prems(3) v have "a \<in> set rest \<or> map_of (AList.update arg v fv) a = map_of fb a"
      by (auto simp: update_conv')
    from Cons.IH [OF b Cons.prems(2) this] show ?thesis .
  next
    case (Some v)
    with Cons.prems(1) have b: "bind_args rest preset fb (ns_setitem cfg arg v) fv = Inr (cfg', fv')"
      by (auto simp: Let_def split: if_splits)
    from Some Cons.prems(2) have "a \<noteq> arg" by (auto dest: map_of_Some_keys)
    with Cons.prems(3) have "a \<in> set rest \<or> map_of fv a = map_of fb a" by auto
    from Cons.IH [OF b Cons.prems(2) this] show ?thesis .
  qed
qed

lemma bind_args_modified:
  "bind_args args preset fb cfg fv = Inr (cfg', fv') \<Longrightarrow>
     k \<in> ns_modified cfg \<or> (k \<in> set args \<and> k \<in> keys preset \<and> k \<in> keys (authoritative cfg)) \<Longrightarrow>
     k \<in> ns_modified cfg'"
proof (induction args arbitrary: cfg fv)
  case Nil
  then show ?case by simp
next
  case (Cons arg rest)
  show ?case
  proof (cases "map_of preset arg")
    case None
    with Cons.prems(1) obtain v where
      b: "bind_args rest preset fb cfg (AList.update arg v fv) = Inr (cfg', fv')"
      by (auto simp: Let_def split: if_splits option.splits)
    from None Cons.prems(2) have
      "k \<in> ns_modified cfg \<or> (k \<in> set rest \<and> k \<in> keys preset \<and> k \<in> keys (authoritative cfg))"
      by (auto simp: map_of_None_keys)
    from Cons.IH [OF b this] show ?thesis .
  next
    case (Some v)
    with Cons.prems(1) have b: "bind_args rest preset fb (ns_setitem cfg arg v) fv = Inr (cfg', fv')"
      by (auto simp: Let_def split: if_splits)
    from Cons.prems(2) have
      "k \<in> ns_modified (ns_setitem cfg arg v)
       \<or> (k \<in> set rest \<and> k \<in> keys preset \<and> k \<in> keys (authoritative (ns_setitem cfg arg v)))"
      by (auto simp: ns_setitem_modified_mono ns_setitem_modified_fixed)
    from Cons.IH [OF b this] show ?thesis .
  qed
qed

lemma bind_args_no_fallback_writes:
  "bind_args args preset fb cfg fv = Inr (cfg', fv') \<Longrightarrow> fallback cfg = [] \<Longrightarrow>
     ns_ignored_fallback_writes cfg' = ns_ignored_fallback_writes cfg"
proof (induction args arbitrary: cfg fv)
  case Nil
  then show ?case by simp
next
  case (Cons arg rest)
  show ?case
  proof (cases "map_of preset arg")
    case None
    with Cons.prems(1) obtain v where
      b: "bind_args rest preset fb cfg (AList.update arg v fv) = Inr (cfg', fv')"
      by (auto simp: Let_def split: if_splits option.splits)
    from Cons.IH [OF b Cons.prems(2)] show ?thesis .
  next
    case (Some v)
    with Cons.prems(1) have b: "bind_args rest preset fb (ns_setitem cfg arg v) fv = Inr (cfg', fv')"
      by (auto simp: Let_def split: if_splits)
    from Cons.prems(2) have "ns_ignored_fallback_writes (ns_setitem cfg arg v) = ns_ignored_fallback_writes cfg"
      by (simp add: ns_setitem_def keys_def)
    with Cons.IH [OF b] Cons.prems(2) show ?thesis by simp
  qed
qed

text \<open>Running the body.\<close>

lemma exec_body_append:
  "exec_body (xs @ ys) ns =
     (case exec_body xs ns of Inl err \<Rightarrow> Inl err | Inr ns' \<Rightarrow> exec_body ys ns')"
  by (induction xs arbitrary: ns) (auto split: sum.splits)

lemma exec_body_frame:
  "exec_body body ns = Inr ns' \<Longrightarrow>
     authoritative ns' = authoritative ns \<and> fallback ns' = fallback ns"
  by (rule exec_body_preserves
        [where P = "\<lambda>n. authoritative n = authoritative ns \<and> fallback n = fallback ns"])
     simp_all

lemma exec_body_keys:
  "exec_body body ns = Inr ns' \<Longrightarrow>
     keys (primary ns') = keys (primary ns) \<union> (target ` set body - keys (authoritative ns))"
proof (induction body arbitrary: ns)
  case Nil
  then show ?case by simp
next
  case (Cons s ss)
  obtain x e where s: "s = Assign x e" by (cases s)
  from Cons.prems obtain v where "exec_body ss (ns_setitem ns x v) = Inr ns'"
    by (auto simp: s split: sum.splits)
  from Cons.IH [OF this] show ?case
    by (auto simp: s ns_setitem_keys)
qed

lemma exec_body_untouched:
  "exec_body body ns = Inr ns' \<Longrightarrow> k \<notin> target ` set body \<Longrightarrow>
     map_of (primary ns') k = map_of (primary ns) k"
proof (induction body arbitrary: ns)
  case Nil
  then show ?case by simp
next
  case (Cons s ss)
  obtain x e where s: "s = Assign x e" by (cases s)
  from Cons.prems(1) obtain v where b: "exec_body ss (ns_setitem ns x v) = Inr ns'"
    by (auto simp: s split: sum.splits)
  from Cons.prems(2) have "k \<notin> target ` set ss" and "k \<noteq> x" by (auto simp: s)
  with Cons.IH [OF b] show ?case
    by (simp add: ns_setitem_primary)
qed

lemma exec_body_modified:
  "exec_body body ns = Inr ns' \<Longrightarrow>
     k \<in> ns_modified ns \<or> (k \<in> target ` set body \<and> k \<in> keys (authoritative ns)) \<Longrightarrow>
     k \<in> ns_modified ns'"
proof (induction body arbitrary: ns)
  case Nil
  then show ?case by simp
next
  case (Cons s ss)
  obtain x e where s: "s = Assign x e" by (cases s)
  from Cons.prems(1) obtain v where b: "exec_body ss (ns_setitem ns x v) = Inr ns'"
    by (auto simp: s split: sum.splits)
  from Cons.prems(2) have
    "k \<in> ns_modified (ns_setitem ns x v)
     \<or> (k \<in> target ` set ss \<and> k \<in> keys (authoritative (ns_setitem ns x v)))"
    by (auto simp: s ns_setitem_modified_mono ns_setitem_modified_fixed)
  from Cons.IH [OF b this] show ?case .
qed

lemma exec_body_fallback_write:
  "exec_body body ns = Inr ns' \<Longrightarrow> k \<notin> keys (authoritative ns) \<Longrightarrow>
     k \<in> set (ns_ignored_fallback_writes ns)
     \<or> (k \<in> target ` set body \<and> k \<notin> keys (primary ns) \<and> k \<in> keys (fallback ns)) \<Longrightarrow>
     k \<in> set (ns_ignored_fallback_writes ns')"
proof (induction body arbitrary: ns)
  case Nil
  then show ?case by simp
next
  case (Cons s ss)
  obtain x e where s: "s = Assign x e" by (cases s)
  from Cons.prems(1) obtain v where b: "exec_body ss (ns_setitem ns x v) = Inr ns'"
    by (auto simp: s split: sum.splits)
  from Cons.prems(2) have a: "k \<notin> keys (authoritative (ns_setitem ns x v))" by simp
  from Cons.prems(2,3) have
    "k \<in> set (ns_ignored_fallback_writes (ns_setitem ns x v))
     \<or> (k \<in> target ` set ss \<and> k \<notin> keys (primary (ns_setitem ns x v))
        \<and> k \<in> keys (fallback (ns_setitem ns x v)))"
    by (cases "k = x") (auto simp: s ns_setitem_def)
  from Cons.IH [OF b a this] show ?case .
qed

lemma exec_body_last_assignment:
  assumes "exec_body (pre @ Assign k e # post) ns = Inr ns'"
    and "k \<notin> target ` set post" and "k \<notin> keys (authoritative ns)"
  shows "\<exists>mid v. exec_body pre ns = Inr mid \<and> e (ns_getitem mid) = Inr v
           \<and> map_of (primary ns') k = Some v"
proof -
  from assms(1) obtain mid v where mid: "exec_body pre ns = Inr mid"
    and v: "e (ns_getitem mid) = Inr v"
    and post: "exec_body post (ns_setitem mid k v) = Inr ns'"
    by (auto simp: exec_body_append split: sum.splits)
  from exec_body_frame [OF mid] assms(3) have "k \<notin> keys (authoritative mid)" by simp
  then have "map_of (primary (ns_setitem mid k v)) k = Some v"
    by (simp add: ns_setitem_primary)
  with exec_body_untouched [OF post assms(2)] mid v show ?thesis by simp
qed

text \<open>Filling in the presets.\<close>

lemma recursive_fill_in_ns_frame:
  assumes "recursive_fill_in_ns ns preset = Inr ns'"
    and "keys (authoritative ns) \<subseteq> keys (primary ns)"
    and "keys preset \<inter> keys (fallback ns) = {}"
  shows "ns_modified ns' = ns_modified ns \<and> ns_typechanges ns' = ns_typechanges ns
         \<and> ns_ignored_fallback_writes ns' = ns_ignored_fallback_writes ns
         \<and> authoritative ns' = authoritative ns \<and> fallback ns' = fallback ns
         \<and> keys (primary ns') = keys (primary ns) \<union> keys preset"
  using assms
proof (induction preset arbitrary: ns)
  case Nil
  then show ?case by simp
next
  case (Cons kv rest)
  obtain key pv where kv: "kv = (key, pv)" by (cases kv)
  from Cons.prems(3) have disj: "keys rest \<inter> keys (fallback ns) = {}"
    and nfb: "key \<notin> keys (fallback ns)"
    by (auto simp: kv)
  show ?case
  proof (cases "map_of (primary ns) key")
    case None
    then have nk: "key \<notin> keys (primary ns)" by (simp add: map_of_None_keys)
    with Cons.prems(2) have na: "key \<notin> keys (authoritative ns)" by auto
    from None Cons.prems(1) have
      b: "recursive_fill_in_ns (ns_setitem ns key pv) rest = Inr ns'" by (simp add: kv)
    have eqs: "ns_modified (ns_setitem ns key pv) = ns_modified ns"
      "ns_typechanges (ns_setitem ns key pv) = ns_typechanges ns"
      "ns_ignored_fallback_writes (ns_setitem ns key pv) = ns_ignored_fallback_writes ns"
      using na nfb None by (simp_all add: ns_setitem_def)
    have sub: "keys (authoritative (ns_setitem ns key pv)) \<subseteq> keys (primary (ns_setitem ns key pv))"
      using Cons.prems(2) by (rule ns_setitem_subset)
    from Cons.IH [OF b sub] disj eqs na show ?thesis
      by (auto simp: kv ns_setitem_keys)
  next
    case (Some old)
    then have ik: "key \<in> keys (primary ns)" by (rule map_of_Some_keys)
    show ?thesis
    proof (cases "\<exists>sub. old = VDict sub")
      case True
      then obtain sub where old: "old = VDict sub" by blast
      with Some Cons.prems(1) obtain sub' where
        b: "recursive_fill_in_ns (ns\<lparr>primary := AList.update key (VDict sub') (primary ns)\<rparr>) rest = Inr ns'"
        by (auto simp: kv split: sum.splits)
      from Cons.IH [OF b] Cons.prems(2) disj ik show ?thesis
        by (auto simp: kv)
    next
      case False
      with Some Cons.prems(1) have b: "recursive_fill_in_ns ns rest = Inr ns'"
        by (cases old) (auto simp: kv)
      from Cons.IH [OF b Cons.prems(2) disj] ik show ?thesis
        by (auto simp: kv)
    qed
  qed
qed

lemma recursive_fill_in_ns_untouched:
  "recursive_fill_in_ns ns preset = Inr ns' \<Longrightarrow>
     k \<notin> keys preset \<or> (\<exists>v. map_of (primary ns) k = Some v \<and> (\<forall>sub. v \<noteq> VDict sub)) \<Longrightarrow>
     map_of (primary ns') k = map_of (primary ns) k"
proof (induction preset arbitrary: ns)
  case Nil
  then show ?case by simp
next
  case (Cons kv rest)
  obtain key pv where kv: "kv = (key, pv)" by (cases kv)
  from Cons.prems(2) have rest:
    "\<And>n. map_of (primary n) k = map_of (primary ns) k \<Longrightarrow>
       k \<notin> keys rest \<or> (\<exists>v. map_of (primary n) k = Some v \<and> (\<forall>sub. v \<noteq> VDict sub))"
    by (auto simp: kv)
  show ?case
  proof (cases "map_of (primary ns) key")
    case None
    with Cons.prems(1) have
      b: "recursive_fill_in_ns (ns_setitem ns key pv) rest = Inr ns'" by (simp add: kv)
    from None Cons.prems(2) have "k \<noteq> key" by (auto simp: kv)
    then have same: "map_of (primary (ns_setitem ns key pv)) k = map_of (primary ns) k"
      by (simp add: ns_setitem_primary)
    from Cons.IH [OF b rest [OF same]] same show ?thesis by simp
  next
    case (Some old)
    show ?thesis
    proof (cases "\<exists>sub. old = VDict sub")
      case True
      then obtain sub where old: "old = VDict sub" by blast
      with Some Cons.prems(1) obtain sub' where
        b: "recursive_fill_in_ns (ns\<lparr>primary := AList.update key (VDict sub') (primary ns)\<rparr>) rest = Inr ns'"
        by (auto simp: kv split: sum.splits)
      from Some old Cons.prems(2) have "k \<noteq> key" by (auto simp: kv)
      then have same: "map_of (primary (ns\<lparr>primary := AList.update key (VDict sub') (primary ns)\<rparr>)) k
          = map_of (primary ns) k"
        by (simp add: update_conv')
      from Cons.IH [OF b rest [OF same]] same show ?thesis by simp
    next
      case False
      with Some Cons.prems(1) have b: "recursive_fill_in_ns ns rest = Inr ns'"
        by (cases old) (auto simp: kv)
      from Cons.IH [OF b rest] show ?thesis by simp
    qed
  qed
qed

lemma bind_args_bound:
  "bind_args args preset fb cfg fv = Inr (cfg', fv') \<Longrightarrow> q \<in> keys preset \<Longrightarrow>
     q \<notin> keys (authoritative cfg) \<Longrightarrow>
     q \<in> set args \<or> map_of (primary cfg) q = map_of preset q \<Longrightarrow>
     map_of (primary cfg') q = map_of preset q"
proof (induction args arbitrary: cfg fv)
  case Nil
  then show ?case by simp
next
  case (Cons arg rest)
  show ?case
  proof (cases "map_of preset arg")
    case None
    with Cons.prems(1) obtain v where
      b: "bind_args rest preset fb cfg (AList.update arg v fv) = Inr (cfg', fv')"
      by (auto simp: Let_def split: if_splits option.splits)
    from None Cons.prems(2) have "q \<noteq> arg" by (auto simp: map_of_None_keys)
    with Cons.prems(4) have "q \<in> set rest \<or> map_of (primary cfg) q = map_of preset q" by auto
    from Cons.IH [OF b Cons.prems(2,3) this] show ?thesis .
  next
    case (Some v)
    with Cons.prems(1) have b: "bind_args rest preset fb (ns_setitem cfg arg v) fv = Inr (cfg', fv')"
      by (auto simp: Let_def split: if_splits)
    from Cons.prems(3) have a: "q \<notin> keys (authoritative (ns_setitem cfg arg v))" by simp
    from Cons.prems(3,4) Some have
      "q \<in> set rest \<or> map_of (primary (ns_setitem cfg arg v)) q = map_of preset q"
      by (cases "q = arg") (auto simp: ns_setitem_primary)
    from Cons.IH [OF b Cons.prems(2) a this] show ?thesis .
  qed
qed

text \<open>The stages of a call that returns.\<close>

lemma ConfigScope_call_stages:
  assumes "ConfigScope_call args body fixed preset fallback_arg = Inr summary"
  obtains c0 fv cfg filled where
    "bind_args args (or_empty preset) (or_empty fallback_arg) (dogmatize (or_empty fixed)) [] =
       Inr (c0, fv)"
    "scope_locals args fixed preset fallback_arg = Inr (c0\<lparr>fallback := fv\<rparr>)"
    "exec_body body (c0\<lparr>fallback := fv\<rparr>) = Inr cfg"
    "scope_executed args body fixed preset fallback_arg = Inr cfg"
    "recursive_fill_in_ns cfg (or_empty preset) = Inr filled"
    "summary = \<lparr>entries = harvest (primary filled), added_values = revelation cfg,
                ignored_fallback_writes = ns_ignored_fallback_writes filled,
                modified = ns_modified filled, typechanges = ns_typechanges filled\<rparr>"
  using assms
  by (auto simp: ConfigScope_call_def scope_executed_def scope_locals_def Let_def
        split: sum.splits prod.splits)

lemma dogmatize_simps [simp]:
  "primary (dogmatize fixed) = fixed" "authoritative (dogmatize fixed) = fixed"
  "fallback (dogmatize fixed) = []" "ns_modified (dogmatize fixed) = {}"
  "ns_typechanges (dogmatize fixed) = []" "ns_ignored_fallback_writes (dogmatize fixed) = []"
  by (simp_all add: dogmatize_def)

section \<open>The summary of a scope\<close>


text \<open>
  Claim C4, as amended. Let a scope's call return, and let \<open>p\<close> be a declared parameter
  that is a key of \<^verbatim>\<open>fallback\<close> and of neither \<^verbatim>\<open>preset\<close> nor \<^verbatim>\<open>fixed\<close>. Then
  \<open>p\<close> is not bound in the namespace the body starts in, and reading it there gives the
  value of \<^verbatim>\<open>fallback\<close>. If the body never assigns \<open>p\<close>, the result has no key \<open>p\<close>.
  If the body assigns \<open>p\<close>, then \<open>p\<close> is in \<open>ignored_fallback_writes\<close>, the namespace
  binds \<open>p\<close> to the value of the last assignment to it, and the result holds that
  value under the rules of the harvest: not at all when \<open>p\<close> starts with an underscore
  or the value is not encodable, as a plain boolean when it is a numpy boolean. A
  declared parameter that is a key of \<^verbatim>\<open>preset\<close> and not of \<^verbatim>\<open>fixed\<close> is bound to its
  value in \<^verbatim>\<open>preset\<close>, whether or not \<^verbatim>\<open>fallback\<close> has it too.
\<close>

theorem fallback_parameter_isolation:
  assumes "ConfigScope_call args body fixed preset fallback_arg = Inr summary"
    and "p \<in> set args" and "p \<notin> keys (or_empty preset)" and "p \<in> keys (or_empty fallback_arg)"
    and "p \<notin> keys (or_empty fixed)" and "distinct (map fst (or_empty fixed))"
  shows "\<exists>cfg_locals executed.
           scope_locals args fixed preset fallback_arg = Inr cfg_locals
         \<and> scope_executed args body fixed preset fallback_arg = Inr executed
         \<and> p \<notin> keys (primary cfg_locals)
         \<and> ns_getitem cfg_locals p = map_of (or_empty fallback_arg) p
         \<and> (p \<notin> target ` set body \<longrightarrow> p \<notin> keys (entries summary))
         \<and> (p \<in> target ` set body \<longrightarrow>
               p \<in> set (ignored_fallback_writes summary)
             \<and> (\<exists>v. map_of (primary executed) p = Some v
                  \<and> map_of (entries summary) p =
                      (if startswith_underscore p then None
                       else (case v of
                               VNpBool b \<Rightarrow> Some (VBool b)
                             | _ \<Rightarrow> if json_dumps_ok v then Some v else None))))
         \<and> (\<forall>pre e post. body = pre @ Assign p e # post \<and> p \<notin> target ` set post \<longrightarrow>
               (\<exists>mid v. exec_body pre cfg_locals = Inr mid \<and> e (ns_getitem mid) = Inr v
                  \<and> map_of (primary executed) p = Some v))
         \<and> (\<forall>q \<in> set args. q \<in> keys (or_empty preset) \<and> q \<notin> keys (or_empty fixed) \<longrightarrow>
               ns_getitem cfg_locals q = map_of (or_empty preset) q)"
proof -
  let ?F = "or_empty fixed" and ?P = "or_empty preset" and ?FB = "or_empty fallback_arg"
  from assms(1) obtain c0 fv cfg filled where
    b: "bind_args args ?P ?FB (dogmatize ?F) [] = Inr (c0, fv)"
    and sl: "scope_locals args fixed preset fallback_arg = Inr (c0\<lparr>fallback := fv\<rparr>)"
    and e: "exec_body body (c0\<lparr>fallback := fv\<rparr>) = Inr cfg"
    and se: "scope_executed args body fixed preset fallback_arg = Inr cfg"
    and f: "recursive_fill_in_ns cfg ?P = Inr filled"
    and s: "summary = \<lparr>entries = harvest (primary filled), added_values = revelation cfg,
                ignored_fallback_writes = ns_ignored_fallback_writes filled,
                modified = ns_modified filled, typechanges = ns_typechanges filled\<rparr>"
    by (rule ConfigScope_call_stages)
  let ?L = "c0\<lparr>fallback := fv\<rparr>"
  from bind_args_keys [OF b] have
    k0: "keys (primary c0) = keys ?F \<union> ({a \<in> set args. a \<in> keys ?P} - keys ?F)"
    and kfv: "keys fv = {a \<in> set args. a \<notin> keys ?P}"
    and a0: "authoritative c0 = ?F"
    by simp_all
  from exec_body_frame [OF e] a0 have acfg: "authoritative cfg = ?F"
    and fcfg: "fallback cfg = fv" by simp_all
  from exec_body_keys [OF e] k0 a0 have kcfg:
    "keys (primary cfg) = keys ?F \<union> (({a \<in> set args. a \<in> keys ?P} \<union> target ` set body) - keys ?F)"
    by auto
  have sub: "keys (authoritative cfg) \<subseteq> keys (primary cfg)"
    using acfg kcfg by auto
  have disj: "keys ?P \<inter> keys (fallback cfg) = {}"
    using fcfg kfv by auto
  note fr = recursive_fill_in_ns_frame [OF f sub disj]
  have d: "distinct (map fst (primary filled))"
    using recursive_fill_in_ns_distinct [OF f] scope_executed_distinct [OF se assms(6)] by simp
  have same: "map_of (primary filled) p = map_of (primary cfg) p"
    using recursive_fill_in_ns_untouched [OF f] assms(3) by simp
  have entries: "map_of (entries summary) p =
      (case map_of (primary cfg) p of
         None \<Rightarrow> None
       | Some v \<Rightarrow>
           if startswith_underscore p then None
           else (case v of
                   VNpBool b \<Rightarrow> Some (VBool b)
                 | _ \<Rightarrow> if json_dumps_ok v then Some v else None))"
    by (simp add: s map_of_harvest [OF d] same)
  have 1: "p \<notin> keys (primary ?L)"
    using k0 assms(3,5) by simp
  have "map_of fv p = map_of ?FB p"
    using bind_args_view [OF b assms(3)] assms(2) by simp
  with 1 have 2: "ns_getitem ?L p = map_of ?FB p"
    by (simp add: ns_getitem_def map_of_None_keys [symmetric])
  have 3: "p \<notin> keys (entries summary)" if "p \<notin> target ` set body"
  proof -
    from that kcfg assms(3,5) have "p \<notin> keys (primary cfg)" by auto
    then have "map_of (primary cfg) p = None" by (simp add: map_of_None_keys)
    with entries show ?thesis by (simp add: map_of_None_keys)
  qed
  have 4: "p \<in> set (ignored_fallback_writes summary)
      \<and> (\<exists>v. map_of (primary cfg) p = Some v
           \<and> map_of (entries summary) p =
               (if startswith_underscore p then None
                else (case v of
                        VNpBool b \<Rightarrow> Some (VBool b)
                      | _ \<Rightarrow> if json_dumps_ok v then Some v else None)))"
    if t: "p \<in> target ` set body"
  proof -
    have "p \<in> set (ns_ignored_fallback_writes cfg)"
      using exec_body_fallback_write [OF e, of p] a0 assms(2,3,5) t 1 kfv by simp
    with fr have w: "p \<in> set (ignored_fallback_writes summary)" by (simp add: s)
    from t kcfg assms(5) have "p \<in> keys (primary cfg)" by auto
    then obtain v where v: "map_of (primary cfg) p = Some v"
      by (cases "map_of (primary cfg) p") (auto simp: map_of_None_keys)
    with entries w show ?thesis by simp
  qed
  have 5: "\<exists>mid v. exec_body pre ?L = Inr mid \<and> e' (ns_getitem mid) = Inr v
             \<and> map_of (primary cfg) p = Some v"
    if "body = pre @ Assign p e' # post" and "p \<notin> target ` set post" for pre e' post
    using exec_body_last_assignment [of pre p e' post ?L cfg] e that a0 assms(5) by simp
  have 6: "ns_getitem ?L q = map_of ?P q"
    if "q \<in> set args" and "q \<in> keys ?P" and "q \<notin> keys ?F" for q
  proof -
    have "map_of (primary c0) q = map_of ?P q"
      using bind_args_bound [OF b that(2)] that(1,3) by simp
    moreover from that(2) have "map_of ?P q \<noteq> None" by (simp add: map_of_None_keys)
    ultimately show ?thesis by (auto simp: ns_getitem_def split: option.splits)
  qed
  show ?thesis
    by (rule exI [where x = ?L], rule exI [where x = cfg]) (use sl se 1 2 3 4 5 6 in blast)
qed

section \<open>Authoritative values\<close>

lemma ns_update_preserves:
  assumes "P ns" and "\<And>n k v. P n \<Longrightarrow> P (ns_setitem n k v)"
  shows "P (ns_update ns other)"
  unfolding ns_update_def using assms(1)
  by (induction other arbitrary: ns) (simp_all add: assms(2))

lemma ns_update_modified:
  "k \<in> ns_modified ns \<or> (k \<in> keys other \<and> k \<in> keys (authoritative ns)) \<Longrightarrow>
     k \<in> ns_modified (ns_update ns other)"
  unfolding ns_update_def
proof (induction other arbitrary: ns)
  case Nil
  then show ?case by simp
next
  case (Cons kv other)
  from Cons.prems have
    "k \<in> ns_modified (ns_setitem ns (fst kv) (snd kv))
     \<or> (k \<in> keys other \<and> k \<in> keys (authoritative (ns_setitem ns (fst kv) (snd kv))))"
    by (auto simp: ns_setitem_modified_mono ns_setitem_modified_fixed)
  from Cons.IH [OF this] show ?case by simp
qed

lemma map_of_dict_update_empty:
  "distinct (map fst d) \<Longrightarrow> map_of (dict_update [] d) = map_of d"
  by (simp add: map_of_dict_update)

text \<open>
  Claim C1, as amended. Let an entry's call return and let \<open>k\<close> be a key of
  \<^verbatim>\<open>fixed\<close>. For a \<^verbatim>\<open>ConfigDict\<close> the result maps \<open>k\<close> to \<^verbatim>\<open>fixed[k]\<close>. For a
  \<^verbatim>\<open>ConfigScope\<close> it does so when \<open>k\<close> does not start with an underscore,
  \<^verbatim>\<open>fixed[k]\<close> is encodable, and \<^verbatim>\<open>fixed[k]\<close> is not a mapping that \<^verbatim>\<open>preset\<close> also
  has under \<open>k\<close>. In both cases \<open>k\<close> is in \<open>modified\<close> when the entry assigns \<open>k\<close>
  (a statement of the body, an item of the literal mapping), whatever the value.
\<close>

theorem fixed_value_preserved:
  assumes "call_entry e fixed preset fallback_arg = Inr summary"
    and "map_of fixed k = Some v" and "distinct (map fst fixed)"
    and "case e of
           ConfigDict conf \<Rightarrow> True
         | ConfigScope args body \<Rightarrow>
             \<not> startswith_underscore k \<and> json_dumps_ok v
             \<and> ((\<exists>sub. v = VDict sub) \<longrightarrow> k \<notin> keys preset)"
  shows "map_of (entries summary) k = Some v
       \<and> ((case e of
              ConfigDict conf \<Rightarrow> k \<in> keys conf
            | ConfigScope args body \<Rightarrow> k \<in> target ` set body)
           \<longrightarrow> k \<in> modified summary)"
proof (cases e)
  case (ConfigDict conf)
  let ?r = "ns_update (ns_update (dogmatize fixed) preset) conf"
  from assms(1) have s: "summary = \<lparr>entries = dict_update [] (undogmatize ?r),
      added_values = revelation ?r, ignored_fallback_writes = [],
      modified = ns_modified ?r, typechanges = ns_typechanges ?r\<rparr>"
    by (simp add: ConfigDict ConfigDict_call_def or_empty_def Let_def)
  from assms(2) have kf: "k \<in> keys fixed" by (rule map_of_Some_keys)
  have inv: "authoritative ?r = fixed \<and> map_of (primary ?r) k = Some v
       \<and> distinct (map fst (primary ?r))"
    by (intro ns_update_preserves
          [where P = "\<lambda>n. authoritative n = fixed \<and> map_of (primary n) k = Some v
             \<and> distinct (map fst (primary n))"])
       (use assms(2,3) kf in \<open>auto simp: ns_setitem_keeps_fixed ns_setitem_distinct\<close>)
  then have 1: "map_of (entries summary) k = Some v"
    by (simp add: s undogmatize_def undogmatize_dict_id map_of_dict_update_empty)
  have "k \<in> ns_modified ?r" if "k \<in> keys conf"
  proof -
    have "authoritative (ns_update (dogmatize fixed) preset) = fixed"
      by (rule ns_update_preserves [where P = "\<lambda>n. authoritative n = fixed"]) simp_all
    with that kf show ?thesis by (intro ns_update_modified) simp
  qed
  with 1 show ?thesis by (simp add: ConfigDict s)
next
  case (ConfigScope args body)
  from assms(4) have nu: "\<not> startswith_underscore k" and js: "json_dumps_ok v"
    and nd: "(\<exists>sub. v = VDict sub) \<longrightarrow> k \<notin> keys preset"
    by (simp_all add: ConfigScope)
  from assms(1) have call: "ConfigScope_call args body (Some fixed) (Some preset) (Some fallback_arg) = Inr summary"
    by (simp add: ConfigScope)
  have oe: "or_empty (Some fixed) = fixed" "or_empty (Some preset) = preset"
    by (simp_all add: or_empty_def)
  from call obtain c0 fv cfg filled where
    b: "bind_args args preset (or_empty (Some fallback_arg)) (dogmatize fixed) [] = Inr (c0, fv)"
    and e: "exec_body body (c0\<lparr>fallback := fv\<rparr>) = Inr cfg"
    and se: "scope_executed args body (Some fixed) (Some preset) (Some fallback_arg) = Inr cfg"
    and f: "recursive_fill_in_ns cfg preset = Inr filled"
    and s: "summary = \<lparr>entries = harvest (primary filled), added_values = revelation cfg,
                ignored_fallback_writes = ns_ignored_fallback_writes filled,
                modified = ns_modified filled, typechanges = ns_typechanges filled\<rparr>"
    by (rule ConfigScope_call_stages) (simp_all add: oe)
  from assms(2) have kf: "k \<in> keys fixed" by (rule map_of_Some_keys)
  have i0: "authoritative c0 = fixed \<and> map_of (primary c0) k = Some v"
    by (rule bind_args_preserves
          [where P = "\<lambda>n. authoritative n = fixed \<and> map_of (primary n) k = Some v", OF b])
       (use assms(2) kf in \<open>auto simp: ns_setitem_keeps_fixed\<close>)
  have i1: "authoritative cfg = fixed \<and> map_of (primary cfg) k = Some v"
    by (rule exec_body_preserves
          [where P = "\<lambda>n. authoritative n = fixed \<and> map_of (primary n) k = Some v", OF e])
       (use i0 kf in \<open>auto simp: ns_setitem_keeps_fixed\<close>)
  have "map_of (primary filled) k = map_of (primary cfg) k"
    using recursive_fill_in_ns_untouched [OF f, of k] i1 nd by auto
  with i1 have i2: "map_of (primary filled) k = Some v" by simp
  have d: "distinct (map fst (primary filled))"
    using recursive_fill_in_ns_distinct [OF f] scope_executed_distinct [OF se] assms(3)
    by (simp add: oe)
  have 1: "map_of (entries summary) k = Some v"
    using js nu by (cases v) (simp_all add: s map_of_harvest [OF d] i2)
  have "k \<in> ns_modified filled" if "k \<in> target ` set body"
  proof -
    from exec_body_modified [OF e, of k] that i0 kf have "k \<in> ns_modified cfg" by simp
    then show ?thesis
      using recursive_fill_in_ns_preserves [where P = "\<lambda>n. k \<in> ns_modified n", OF f]
      by (simp add: ns_setitem_modified_mono)
  qed
  with 1 show ?thesis by (simp add: ConfigScope s)
qed

text \<open>The definitions that evaluate a call on concrete inputs.\<close>

lemmas scope_eval =
  ConfigScope_call_def scope_executed_def scope_locals_def dogmatize_def or_empty_def
  ns_setitem_def ns_getitem_def keys_def revelation_def harvest_def harvest_item_def
  startswith_underscore_def undogmatize_value_def Let_def

text \<open>The fixed value \<^verbatim>\<open>x = 10\<close> and the body \<^verbatim>\<open>x = 5\<close>.\<close>

theorem fixed_value_preserved_witness:
  "call_entry (ConfigScope [] [Assign ''x'' (\<lambda>env. Inr (VInt 5))]) [(''x'', VInt 10)] [] [] =
     Inr \<lparr>entries = [(''x'', VInt 10)], added_values = {}, ignored_fallback_writes = [],
          modified = {''x''}, typechanges = []\<rparr>
   \<and> map_of [(''x'', VInt 10)] ''x'' = Some (VInt 10)
   \<and> distinct (map fst [(''x'', VInt 10)])
   \<and> \<not> startswith_underscore ''x'' \<and> json_dumps_ok (VInt 10)
   \<and> ''x'' \<in> target ` set [Assign ''x'' (\<lambda>env. Inr (VInt 5))]
   \<and> map_of (entries \<lparr>entries = [(''x'', VInt 10)], added_values = {},
                      ignored_fallback_writes = [], modified = {''x''}, typechanges = []\<rparr>) ''x''
       = Some (VInt 10)
   \<and> ''x'' \<in> modified \<lparr>entries = [(''x'', VInt 10)], added_values = {},
                      ignored_fallback_writes = [], modified = {''x''}, typechanges = []\<rparr>"
proof -
  have c: "call_entry (ConfigScope [] [Assign ''x'' (\<lambda>env. Inr (VInt 5))]) [(''x'', VInt 10)] [] [] =
     Inr \<lparr>entries = [(''x'', VInt 10)], added_values = {}, ignored_fallback_writes = [],
          modified = {''x''}, typechanges = []\<rparr>"
    by (simp add: scope_eval)
  have h: "case ConfigScope [] [Assign ''x'' (\<lambda>env. Inr (VInt 5))] of
           ConfigDict conf \<Rightarrow> True
         | ConfigScope args body \<Rightarrow>
             \<not> startswith_underscore ''x'' \<and> json_dumps_ok (VInt 10)
             \<and> ((\<exists>sub. VInt 10 = VDict sub) \<longrightarrow> ''x'' \<notin> keys [])"
    by (simp add: startswith_underscore_def)
  from fixed_value_preserved [OF c _ _ h] c show ?thesis
    by (simp add: startswith_underscore_def)
qed

text \<open>
  Claim C1 as stated fails for a scope. A fixed mapping is completed from the mapping
  that \<^verbatim>\<open>preset\<close> has under the same key, so the result differs from \<^verbatim>\<open>fixed[k]\<close>;
  a fixed key that starts with an underscore is not in the result; and neither is a
  fixed key whose value \<^verbatim>\<open>json.dumps\<close> rejects.
\<close>

theorem fixed_value_counterexample:
  "call_entry (ConfigScope [] []) [(''opt'', VDict [(''lr'', VInt 1)])]
        [(''opt'', VDict [(''lr'', VInt 5), (''decay'', VInt 2)])] [] =
       Inr \<lparr>entries = [(''opt'', VDict [(''lr'', VInt 1), (''decay'', VInt 2)])],
            added_values = {}, ignored_fallback_writes = [], modified = {}, typechanges = []\<rparr>
   \<and> call_entry (ConfigScope [] []) [(''_id'', VInt 1)] [] [] =
       Inr \<lparr>entries = [], added_values = {}, ignored_fallback_writes = [], modified = {},
            typechanges = []\<rparr>
   \<and> call_entry (ConfigScope [] []) [(''hook'', VOpaque ''function'')] [] [] =
       Inr \<lparr>entries = [], added_values = {}, ignored_fallback_writes = [], modified = {},
            typechanges = []\<rparr>"
  by (simp add: scope_eval)


text \<open>The body \<^verbatim>\<open>run_id = run_id + "_x"\<close> with \<^verbatim>\<open>run_id\<close> from \<^verbatim>\<open>fallback\<close>.\<close>

theorem fallback_parameter_isolation_witness:
  "\<exists>summary.
     ConfigScope_call [''run_id'']
       [Assign ''run_id'' (\<lambda>env. case env ''run_id'' of
                                    Some (VStr s) \<Rightarrow> Inr (VStr (s @ ''_x''))
                                  | _ \<Rightarrow> Inl (Raised ''NameError''))]
       None None (Some [(''run_id'', VStr ''abc'')]) = Inr summary
   \<and> ''run_id'' \<in> set [''run_id'']
   \<and> ''run_id'' \<notin> keys (or_empty None)
   \<and> ''run_id'' \<in> keys (or_empty (Some [(''run_id'', VStr ''abc'')]))
   \<and> distinct (map fst (or_empty None))
   \<and> ''run_id'' \<in> set (ignored_fallback_writes summary)
   \<and> map_of (entries summary) ''run_id'' = Some (VStr ''abc_x'')"
proof -
  let ?body = "[Assign ''run_id'' (\<lambda>env. case env ''run_id'' of
                                    Some (VStr s) \<Rightarrow> Inr (VStr (s @ ''_x''))
                                  | _ \<Rightarrow> Inl (Raised ''NameError''))]"
  let ?s = "\<lparr>entries = [(''run_id'', VStr ''abc_x'')], added_values = {''run_id''},
            ignored_fallback_writes = [''run_id''], modified = {}, typechanges = []\<rparr>"
  have c: "ConfigScope_call [''run_id''] ?body None None (Some [(''run_id'', VStr ''abc'')]) = Inr ?s"
    by (simp add: scope_eval)
  have h: "''run_id'' \<in> set [''run_id'']" "''run_id'' \<notin> keys (or_empty None)"
    "''run_id'' \<in> keys (or_empty (Some [(''run_id'', VStr ''abc'')]))"
    "distinct (map fst (or_empty None))"
    by (simp_all add: or_empty_def keys_def)
  from fallback_parameter_isolation [OF c h(1,2,3,2,4)]
  have "''run_id'' \<in> set (ignored_fallback_writes ?s)" by auto
  with c h show ?thesis by simp
qed

text \<open>
  Claim C4 as stated fails. The parameters \<^verbatim>\<open>_log\<close> and \<^verbatim>\<open>hook\<close> come from
  \<^verbatim>\<open>fallback\<close> only and the body assigns them, yet the result has neither key: the first
  starts with an underscore, the second is bound to a function object. The parameter
  \<^verbatim>\<open>run_id\<close> comes from \<^verbatim>\<open>fallback\<close> only and the body never assigns it, yet the result
  has it, with the value that \<^verbatim>\<open>fixed\<close> gives it.
\<close>

theorem fallback_parameter_counterexample:
  "ConfigScope_call [''_log''] [Assign ''_log'' (\<lambda>env. Inr (VStr ''x''))] None None
     (Some [(''_log'', VStr ''abc'')]) =
     Inr \<lparr>entries = [], added_values = {''_log''}, ignored_fallback_writes = [''_log''],
          modified = {}, typechanges = []\<rparr>
   \<and> ConfigScope_call [''hook''] [Assign ''hook'' (\<lambda>env. Inr (VOpaque ''function''))] None None
       (Some [(''hook'', VNone)]) =
       Inr \<lparr>entries = [], added_values = {''hook''}, ignored_fallback_writes = [''hook''],
            modified = {}, typechanges = []\<rparr>
   \<and> ConfigScope_call [''run_id''] [] (Some [(''run_id'', VStr ''f'')]) None
       (Some [(''run_id'', VStr ''abc'')]) =
       Inr \<lparr>entries = [(''run_id'', VStr ''f'')], added_values = {}, ignored_fallback_writes = [],
            modified = {}, typechanges = []\<rparr>"
  by (simp add: scope_eval)

section \<open>Presets that are equal as mappings\<close>

lemma recursive_fill_in_ns_lookup:
  assumes "recursive_fill_in_ns ns preset = Inr ns'"
    and "distinct (map fst preset)"
    and "keys (authoritative ns) \<subseteq> keys (primary ns)"
  shows "map_of (primary ns') k =
     (case map_of preset k of
        None \<Rightarrow> map_of (primary ns) k
      | Some pv \<Rightarrow>
          (case map_of (primary ns) k of
             None \<Rightarrow> Some pv
           | Some (VDict sub) \<Rightarrow>
               (case recursive_fill_in sub pv of
                  Inl err \<Rightarrow> None
                | Inr sub' \<Rightarrow> Some (VDict sub'))
           | Some old \<Rightarrow> Some old))"
  using assms
proof (induction preset arbitrary: ns)
  case Nil
  then show ?case by simp
next
  case (Cons kv rest)
  obtain key pv where kv: "kv = (key, pv)" by (cases kv)
  from Cons.prems(2) have d: "distinct (map fst rest)" and nr: "map_of rest key = None"
    by (auto simp: kv map_of_eq_None_iff)
  have step: "map_of (primary ns') k =
      (if k = key then
         (case map_of (primary ns) k of
             None \<Rightarrow> Some pv
           | Some (VDict sub) \<Rightarrow>
               (case recursive_fill_in sub pv of
                  Inl err \<Rightarrow> None
                | Inr sub' \<Rightarrow> Some (VDict sub'))
           | Some old \<Rightarrow> Some old)
       else (case map_of rest k of
        None \<Rightarrow> map_of (primary ns) k
      | Some pv \<Rightarrow>
          (case map_of (primary ns) k of
             None \<Rightarrow> Some pv
           | Some (VDict sub) \<Rightarrow>
               (case recursive_fill_in sub pv of
                  Inl err \<Rightarrow> None
                | Inr sub' \<Rightarrow> Some (VDict sub'))
           | Some old \<Rightarrow> Some old)))"
  proof (cases "map_of (primary ns) key")
    case None
    then have "key \<notin> keys (primary ns)" by (simp add: map_of_None_keys)
    with Cons.prems(3) have na: "key \<notin> keys (authoritative ns)" by auto
    from None Cons.prems(1) have
      b: "recursive_fill_in_ns (ns_setitem ns key pv) rest = Inr ns'" by (simp add: kv)
    have sub: "keys (authoritative (ns_setitem ns key pv)) \<subseteq> keys (primary (ns_setitem ns key pv))"
      using Cons.prems(3) by (rule ns_setitem_subset)
    show ?thesis
    proof (cases "k = key")
      case True
      with Cons.IH [OF b d sub] nr None na show ?thesis
        by (simp add: ns_setitem_primary)
    next
      case False
      then have same: "map_of (primary (ns_setitem ns key pv)) k = map_of (primary ns) k"
        by (simp add: ns_setitem_primary)
      show ?thesis
        using Cons.IH [OF b d sub] False unfolding same by simp
    qed
  next
    case (Some old)
    show ?thesis
    proof (cases "\<exists>sub. old = VDict sub")
      case True
      then obtain sub where old: "old = VDict sub" by blast
      with Some Cons.prems(1) obtain sub' where r: "recursive_fill_in sub pv = Inr sub'" and
        b: "recursive_fill_in_ns (ns\<lparr>primary := AList.update key (VDict sub') (primary ns)\<rparr>) rest = Inr ns'"
        by (auto simp: kv split: sum.splits)
      have sub: "keys (authoritative (ns\<lparr>primary := AList.update key (VDict sub') (primary ns)\<rparr>))
          \<subseteq> keys (primary (ns\<lparr>primary := AList.update key (VDict sub') (primary ns)\<rparr>))"
        using Cons.prems(3) by auto
      show ?thesis
      proof (cases "k = key")
        case True
        with Cons.IH [OF b d sub] nr Some old r show ?thesis
          by (simp add: update_conv')
      next
        case False
        then have same:
          "map_of (primary (ns\<lparr>primary := AList.update key (VDict sub') (primary ns)\<rparr>)) k
             = map_of (primary ns) k"
          by (simp add: update_conv')
        show ?thesis
          using Cons.IH [OF b d sub] False unfolding same by simp
      qed
    next
      case False
      with Some Cons.prems(1) have b: "recursive_fill_in_ns ns rest = Inr ns'"
        by (cases old) (auto simp: kv)
      show ?thesis
      proof (cases "k = key")
        case True
        with Cons.IH [OF b d Cons.prems(3)] nr Some False show ?thesis
          by (cases old) simp_all
      next
        case False
        with Cons.IH [OF b d Cons.prems(3)] show ?thesis by simp
      qed
    qed
  qed
  then show ?case by (simp add: kv)
qed


lemma recursive_fill_in_ns_returns:
  assumes "distinct (map fst preset)"
  shows "(\<exists>ns'. recursive_fill_in_ns ns preset = Inr ns') \<longleftrightarrow>
         (\<forall>kv \<in> set preset. \<forall>sub. map_of (primary ns) (fst kv) = Some (VDict sub) \<longrightarrow>
            (\<exists>sub'. recursive_fill_in sub (snd kv) = Inr sub'))"
  using assms
proof (induction preset arbitrary: ns)
  case Nil
  then show ?case by simp
next
  case (Cons kv rest)
  obtain key pv where kv: "kv = (key, pv)" by (cases kv)
  from Cons.prems have d: "distinct (map fst rest)" and other: "\<forall>kv' \<in> set rest. fst kv' \<noteq> key"
    by (auto simp: kv)
  show ?case
  proof (cases "map_of (primary ns) key")
    case None
    have "\<forall>kv' \<in> set rest. map_of (primary (ns_setitem ns key pv)) (fst kv') = map_of (primary ns) (fst kv')"
      using other by (simp add: ns_setitem_primary)
    with Cons.IH [OF d, of "ns_setitem ns key pv"] None show ?thesis
      by (simp add: kv)
  next
    case (Some old)
    show ?thesis
    proof (cases "\<exists>sub. old = VDict sub")
      case True
      then obtain sub where old: "old = VDict sub" by blast
      show ?thesis
      proof (cases "recursive_fill_in sub pv")
        case (Inl err)
        with Some old show ?thesis by (auto simp: kv)
      next
        case (Inr sub')
        have "\<forall>kv' \<in> set rest.
            map_of (primary (ns\<lparr>primary := AList.update key (VDict sub') (primary ns)\<rparr>)) (fst kv')
              = map_of (primary ns) (fst kv')"
          using other by (simp add: update_conv')
        with Cons.IH [OF d, of "ns\<lparr>primary := AList.update key (VDict sub') (primary ns)\<rparr>"]
          Some old Inr show ?thesis
          by (simp add: kv)
      qed
    next
      case False
      with Some have "recursive_fill_in_ns ns (kv # rest) = recursive_fill_in_ns ns rest"
        by (cases old) (auto simp: kv)
      with Cons.IH [OF d, of ns] Some False show ?thesis
        by (auto simp: kv)
    qed
  qed
qed

lemma same_map_same_set:
  "map_of xs = map_of ys \<Longrightarrow> distinct (map fst xs) \<Longrightarrow> distinct (map fst ys) \<Longrightarrow> set xs = set ys"
  by (simp add: map_of_inject_set)

lemma scope_executed_subset:
  assumes "scope_executed args body fixed preset fb = Inr cfg"
  shows "keys (authoritative cfg) \<subseteq> keys (primary cfg)"
proof -
  from assms obtain c0 fv where
    b: "bind_args args (or_empty preset) (or_empty fb) (dogmatize (or_empty fixed)) [] = Inr (c0, fv)"
    and e: "exec_body body (c0\<lparr>fallback := fv\<rparr>) = Inr cfg"
    by (auto simp: scope_executed_def scope_locals_def split: sum.splits)
  have "keys (authoritative c0) \<subseteq> keys (primary c0)"
    by (rule bind_args_preserves
          [where P = "\<lambda>n. keys (authoritative n) \<subseteq> keys (primary n)", OF b])
       (auto simp: ns_setitem_keys)
  then have "keys (authoritative (c0\<lparr>fallback := fv\<rparr>)) \<subseteq> keys (primary (c0\<lparr>fallback := fv\<rparr>))"
    by simp
  with e show ?thesis
    by (rule exec_body_preserves [where P = "\<lambda>n. keys (authoritative n) \<subseteq> keys (primary n)"])
       (auto simp: ns_setitem_keys)
qed

lemma ConfigScope_call_same_preset:
  assumes "ConfigScope_call args body fixed (Some p1) fb = Inr s1"
    and "map_of p1 = map_of p2"
    and "distinct (map fst p1)" and "distinct (map fst p2)"
    and "distinct (map fst (or_empty fixed))"
  shows "\<exists>s2. ConfigScope_call args body fixed (Some p2) fb = Inr s2
           \<and> map_of (entries s2) = map_of (entries s1)"
proof -
  have oe: "or_empty (Some p1) = p1" "or_empty (Some p2) = p2" by (simp_all add: or_empty_def)
  from assms(1) obtain cfg filled where
    se: "scope_executed args body fixed (Some p1) fb = Inr cfg"
    and f: "recursive_fill_in_ns cfg p1 = Inr filled"
    and s: "entries s1 = harvest (primary filled)"
    by (rule ConfigScope_call_stages) (simp add: oe)
  have se2: "scope_executed args body fixed (Some p2) fb = Inr cfg"
    using se bind_args_same_preset [OF assms(2)]
    by (simp add: scope_executed_def scope_locals_def oe)
  have sets: "set p1 = set p2"
    using assms(2,3,4) by (rule same_map_same_set)
  from f recursive_fill_in_ns_returns [OF assms(3), of cfg] recursive_fill_in_ns_returns [OF assms(4), of cfg]
  obtain filled2 where f2: "recursive_fill_in_ns cfg p2 = Inr filled2"
    unfolding sets by blast
  note sub = scope_executed_subset [OF se]
  have "map_of (primary filled2) k = map_of (primary filled) k" for k
    unfolding recursive_fill_in_ns_lookup [OF f assms(3) sub]
      recursive_fill_in_ns_lookup [OF f2 assms(4) sub] assms(2) ..
  then have same: "map_of (primary filled2) = map_of (primary filled)" by (rule ext)
  have d1: "distinct (map fst (primary filled))"
    using recursive_fill_in_ns_distinct [OF f] scope_executed_distinct [OF se assms(5)] by simp
  have d2: "distinct (map fst (primary filled2))"
    using recursive_fill_in_ns_distinct [OF f2] scope_executed_distinct [OF se assms(5)] by simp
  have "map_of (harvest (primary filled2)) k = map_of (harvest (primary filled)) k" for k
    unfolding map_of_harvest [OF d1] map_of_harvest [OF d2] same ..
  then have "map_of (harvest (primary filled2)) = map_of (entries s1)"
    unfolding s by (rule ext)
  then show ?thesis
    by (simp add: ConfigScope_call_def se2 f2 oe)
qed

lemma ns_update_lookup:
  "distinct (map fst d) \<Longrightarrow>
     map_of (primary (ns_update ns d)) k =
       (if k \<in> keys (authoritative ns) then map_of (primary ns) k
        else (case map_of d k of None \<Rightarrow> map_of (primary ns) k | Some v \<Rightarrow> Some v))"
  unfolding ns_update_def
proof (induction d arbitrary: ns)
  case Nil
  then show ?case by simp
next
  case (Cons kv d)
  obtain key v where kv: "kv = (key, v)" by (cases kv)
  from Cons.prems have dd: "distinct (map fst d)" and nr: "map_of d key = None"
    by (auto simp: kv map_of_eq_None_iff)
  show ?case
    using Cons.IH [OF dd, of "ns_setitem ns key v"] nr
    by (auto simp: kv ns_setitem_primary split: option.splits)
qed

lemma ns_update_same:
  "authoritative r1 = authoritative r2 \<Longrightarrow> map_of (primary r1) = map_of (primary r2) \<Longrightarrow>
     map_of (primary (ns_update r1 d)) = map_of (primary (ns_update r2 d))"
  unfolding ns_update_def
proof (induction d arbitrary: r1 r2)
  case Nil
  then show ?case by simp
next
  case (Cons kv d)
  have "map_of (primary (ns_setitem r1 (fst kv) (snd kv))) k
      = map_of (primary (ns_setitem r2 (fst kv) (snd kv))) k" for k
    using Cons.prems by (simp add: ns_setitem_primary)
  then have "map_of (primary (ns_setitem r1 (fst kv) (snd kv)))
      = map_of (primary (ns_setitem r2 (fst kv) (snd kv)))" by (rule ext)
  with Cons.IH [of "ns_setitem r1 (fst kv) (snd kv)" "ns_setitem r2 (fst kv) (snd kv)"] Cons.prems(1)
  show ?case by simp
qed

lemma ns_update_keys:
  "keys (primary (ns_update ns d)) = keys (primary ns) \<union> (keys d - keys (authoritative ns))"
  unfolding ns_update_def
proof (induction d arbitrary: ns)
  case Nil
  then show ?case by simp
next
  case (Cons kv d)
  show ?case
    using Cons.IH [of "ns_setitem ns (fst kv) (snd kv)"]
    by (auto simp: ns_setitem_keys)
qed

lemma ns_update_authoritative [simp]: "authoritative (ns_update ns d) = authoritative ns"
  by (rule ns_update_preserves [where P = "\<lambda>n. authoritative n = authoritative ns"]) simp_all

lemma ns_update_distinct:
  "distinct (map fst (primary ns)) \<Longrightarrow> distinct (map fst (primary (ns_update ns d)))"
  by (rule ns_update_preserves [where P = "\<lambda>n. distinct (map fst (primary n))"])
     (simp_all add: ns_setitem_distinct)

lemma distinct_dict_update:
  "distinct (map fst d) \<Longrightarrow> distinct (map fst (dict_update d other))"
  unfolding dict_update_def
  by (induction other arbitrary: d) (simp_all add: distinct_update)

lemma keys_dict_update: "keys (dict_update d other) = keys d \<union> keys other"
  unfolding dict_update_def
  by (induction other arbitrary: d) auto

lemma distinct_fold_harvest_item:
  "distinct (map fst acc) \<Longrightarrow> distinct (map fst (fold harvest_item kvs acc))"
proof (induction kvs arbitrary: acc)
  case Nil
  then show ?case by simp
next
  case (Cons kv kvs)
  from Cons.prems have "distinct (map fst (harvest_item kv acc))"
    by (cases "snd kv") (simp_all add: harvest_item_def distinct_update)
  from Cons.IH [OF this] show ?case by simp
qed

lemma ConfigDict_call_entries:
  assumes "ConfigDict_call conf (Some fixed) preset fb = Inr s" and "distinct (map fst fixed)"
  shows "map_of (entries s) = map_of (primary (ns_update (ns_update (dogmatize fixed) preset) conf))"
    and "keys (entries s) = keys fixed \<union> keys preset \<union> keys conf"
    and "distinct (map fst (entries s))"
proof -
  let ?r = "ns_update (ns_update (dogmatize fixed) preset) conf"
  from assms(1) have s: "entries s = dict_update [] (primary ?r)"
    by (auto simp: ConfigDict_call_def or_empty_def Let_def undogmatize_def undogmatize_dict_id)
  have d: "distinct (map fst (primary ?r))"
    by (intro ns_update_distinct) (simp add: assms(2))
  from d show "map_of (entries s) = map_of (primary ?r)"
    by (simp add: s map_of_dict_update)
  show "keys (entries s) = keys fixed \<union> keys preset \<union> keys conf"
    by (auto simp: s keys_dict_update ns_update_keys)
  show "distinct (map fst (entries s))"
    by (simp add: s distinct_dict_update)
qed

lemma call_entry_distinct:
  assumes "call_entry e fixed preset fb = Inr s" and "distinct (map fst fixed)"
  shows "distinct (map fst (entries s))"
proof (cases e)
  case (ConfigScope args body)
  with assms(1) have "ConfigScope_call args body (Some fixed) (Some preset) (Some fb) = Inr s"
    by simp
  then show ?thesis
    by (auto simp: ConfigScope_call_def Let_def harvest_def distinct_fold_harvest_item
          split: sum.splits)
next
  case (ConfigDict conf)
  with assms show ?thesis
    by (simp add: ConfigDict_call_entries(3))
qed

lemma call_entry_same_preset:
  assumes "call_entry e fixed p1 fb = Inr s1"
    and "map_of p1 = map_of p2"
    and "distinct (map fst p1)" and "distinct (map fst p2)" and "distinct (map fst fixed)"
  shows "\<exists>s2. call_entry e fixed p2 fb = Inr s2 \<and> map_of (entries s2) = map_of (entries s1)"
proof (cases e)
  case (ConfigScope args body)
  with assms(1) have "ConfigScope_call args body (Some fixed) (Some p1) (Some fb) = Inr s1"
    by simp
  from ConfigScope_call_same_preset [OF this assms(2,3,4)] assms(5) ConfigScope
  show ?thesis by (simp add: or_empty_def)
next
  case (ConfigDict conf)
  with assms(1) have c1: "ConfigDict_call conf (Some fixed) p1 (Some fb) = Inr s1" by simp
  obtain s2 where c2: "ConfigDict_call conf (Some fixed) p2 (Some fb) = Inr s2"
    by (simp add: ConfigDict_call_def Let_def)
  have "map_of (primary (ns_update (dogmatize fixed) p1)) k
      = map_of (primary (ns_update (dogmatize fixed) p2)) k" for k
    by (simp add: ns_update_lookup assms(2,3,4))
  then have "map_of (primary (ns_update (dogmatize fixed) p1))
      = map_of (primary (ns_update (dogmatize fixed) p2))" by (rule ext)
  then have "map_of (primary (ns_update (ns_update (dogmatize fixed) p1) conf))
      = map_of (primary (ns_update (ns_update (dogmatize fixed) p2) conf))"
    by (intro ns_update_same) simp_all
  with ConfigDict_call_entries(1) [OF c1 assms(5)] ConfigDict_call_entries(1) [OF c2 assms(5)]
  have "map_of (entries s2) = map_of (entries s1)" by simp
  with c2 ConfigDict show ?thesis by simp
qed

text \<open>
  Claim C2, as amended. Let \<open>A\<close> return \<open>sA\<close> for the starting preset, and let \<open>B\<close>
  return \<open>sB\<close> for the preset that the loop hands to it: the starting preset updated
  with the result of \<open>A\<close>. Then the chain \<open>[A, B]\<close> returns the starting preset updated
  with the result of \<open>A\<close> and then with the result of \<open>B\<close>, so that every key of the
  result of \<open>B\<close> has the value of \<open>B\<close> in the final result. The final result is, as a
  mapping, the result of \<open>B\<close> evaluated alone with the result of \<open>A\<close> as its preset,
  whenever the result of \<open>A\<close> has every key of the starting preset and the result of
  \<open>B\<close> has every key of the result of \<open>A\<close>; two \<^verbatim>\<open>ConfigDict\<close> entries always meet
  both conditions.
\<close>

theorem chain_evaluate_two:
  assumes "call_entry A fixed preset fallback_arg = Inr sA"
    and "call_entry B fixed (dict_update preset (entries sA)) fallback_arg = Inr sB"
  shows "chain_evaluate_config_scopes [A, B] (Some fixed) (Some preset) (Some fallback_arg) =
           Inr (dict_update (dict_update preset (entries sA)) (entries sB), [sA, sB])
       \<and> (distinct (map fst fixed) \<longrightarrow>
            (\<forall>k \<in> keys (entries sB).
               map_of (dict_update (dict_update preset (entries sA)) (entries sB)) k =
                 map_of (entries sB) k))
       \<and> (distinct (map fst fixed) \<and> distinct (map fst preset)
            \<and> keys preset \<subseteq> keys (entries sA) \<and> keys (entries sA) \<subseteq> keys (entries sB) \<longrightarrow>
            (\<exists>sB'. call_entry B fixed (entries sA) fallback_arg = Inr sB'
               \<and> map_of (dict_update (dict_update preset (entries sA)) (entries sB)) =
                   map_of (entries sB')))
       \<and> (distinct (map fst fixed) \<and> (\<exists>confA. A = ConfigDict confA) \<and> (\<exists>confB. B = ConfigDict confB) \<longrightarrow>
            keys preset \<subseteq> keys (entries sA) \<and> keys (entries sA) \<subseteq> keys (entries sB))"
proof -
  let ?run = "dict_update preset (entries sA)"
  let ?final = "dict_update ?run (entries sB)"
  have 1: "chain_evaluate_config_scopes [A, B] (Some fixed) (Some preset) (Some fallback_arg) =
           Inr (?final, [sA, sB])"
    by (simp add: chain_evaluate_config_scopes_def or_empty_def assms undogmatize_dict_id)
  have final: "map_of ?final = map_of ?run ++ map_of (entries sB)" if "distinct (map fst fixed)"
    using call_entry_distinct [OF assms(2) that] by (rule map_of_dict_update)
  have 2: "map_of ?final k = map_of (entries sB) k"
    if "distinct (map fst fixed)" and "k \<in> keys (entries sB)" for k
  proof -
    from that(2) have "map_of (entries sB) k \<noteq> None" by (simp add: map_of_None_keys)
    with final [OF that(1)] show ?thesis by (auto simp: map_add_def split: option.splits)
  qed
  have 3: "\<exists>sB'. call_entry B fixed (entries sA) fallback_arg = Inr sB'
             \<and> map_of ?final = map_of (entries sB')"
    if df: "distinct (map fst fixed)" and dp: "distinct (map fst preset)"
      and pa: "keys preset \<subseteq> keys (entries sA)" and ab: "keys (entries sA) \<subseteq> keys (entries sB)"
  proof -
    note dA = call_entry_distinct [OF assms(1) df]
    have run: "map_of ?run = map_of preset ++ map_of (entries sA)"
      using dA by (rule map_of_dict_update)
    have "map_of ?run k = map_of (entries sA) k" for k
    proof (cases "map_of (entries sA) k")
      case None
      then have "k \<notin> keys (entries sA)" by (simp add: map_of_None_keys)
      with pa have "k \<notin> keys preset" by auto
      then have "map_of preset k = None" by (simp add: map_of_None_keys)
      with None show ?thesis by (simp add: run map_add_def)
    next
      case (Some v)
      then show ?thesis by (simp add: run map_add_def)
    qed
    then have runA: "map_of ?run = map_of (entries sA)" by (rule ext)
    have drun: "distinct (map fst ?run)" using dp by (rule distinct_dict_update)
    from call_entry_same_preset [OF assms(2) runA drun dA df]
    obtain sB' where b': "call_entry B fixed (entries sA) fallback_arg = Inr sB'"
      and eq: "map_of (entries sB') = map_of (entries sB)" by blast
    have "map_of ?final k = map_of (entries sB) k" for k
    proof (cases "map_of (entries sB) k")
      case None
      then have "k \<notin> keys (entries sB)" by (simp add: map_of_None_keys)
      with ab have "k \<notin> keys (entries sA)" by auto
      then have "map_of ?run k = None" by (simp add: runA map_of_None_keys)
      with None final [OF df] show ?thesis by (simp add: map_add_def)
    next
      case (Some v)
      with final [OF df] show ?thesis by (simp add: map_add_def)
    qed
    then have "map_of ?final = map_of (entries sB)" by (rule ext)
    with b' eq show ?thesis by simp
  qed
  have 4: "keys preset \<subseteq> keys (entries sA) \<and> keys (entries sA) \<subseteq> keys (entries sB)"
    if df: "distinct (map fst fixed)" and "A = ConfigDict confA" and "B = ConfigDict confB"
    for confA confB
    using assms that ConfigDict_call_entries(2) [of confA fixed preset "Some fallback_arg" sA]
      ConfigDict_call_entries(2) [of confB fixed ?run "Some fallback_arg" sB]
    by (auto simp: keys_dict_update)
  from 1 2 3 4 show ?thesis by blast
qed

text \<open>The chain of the literal entry \<^verbatim>\<open>{a: 1}\<close> and the scope \<^verbatim>\<open>b = a * 2\<close>.\<close>

theorem chain_evaluate_two_witness:
  "call_entry (ConfigDict [(''a'', VInt 1)]) [] [] [] =
     Inr \<lparr>entries = [(''a'', VInt 1)], added_values = {''a''}, ignored_fallback_writes = [],
          modified = {}, typechanges = []\<rparr>
   \<and> distinct (map fst ([] :: dict))
   \<and> keys [] \<subseteq> keys [(''a'', VInt 1)]
   \<and> keys [(''a'', VInt 1)] \<subseteq> keys [(''a'', VInt 1), (''b'', VInt 2)]
   \<and> chain_evaluate_config_scopes
        [ConfigDict [(''a'', VInt 1)],
         ConfigScope [''a'']
           [Assign ''b'' (\<lambda>env. case env ''a'' of
                                   Some (VInt n) \<Rightarrow> Inr (VInt (n * 2))
                                 | _ \<Rightarrow> Inl (Raised ''NameError''))]]
        (Some []) (Some []) (Some []) =
       Inr ([(''a'', VInt 1), (''b'', VInt 2)],
            [\<lparr>entries = [(''a'', VInt 1)], added_values = {''a''},
               ignored_fallback_writes = [], modified = {}, typechanges = []\<rparr>,
             \<lparr>entries = [(''a'', VInt 1), (''b'', VInt 2)], added_values = {''a'', ''b''},
               ignored_fallback_writes = [], modified = {}, typechanges = []\<rparr>])
   \<and> (\<exists>sB'. call_entry
                (ConfigScope [''a'']
                   [Assign ''b'' (\<lambda>env. case env ''a'' of
                                           Some (VInt n) \<Rightarrow> Inr (VInt (n * 2))
                                         | _ \<Rightarrow> Inl (Raised ''NameError''))])
                [] [(''a'', VInt 1)] [] = Inr sB'
           \<and> map_of [(''a'', VInt 1), (''b'', VInt 2)] = map_of (entries sB'))"
proof -
  let ?A = "ConfigDict [(''a'', VInt 1)]"
  let ?B = "ConfigScope [''a'']
           [Assign ''b'' (\<lambda>env. case env ''a'' of
                                   Some (VInt n) \<Rightarrow> Inr (VInt (n * 2))
                                 | _ \<Rightarrow> Inl (Raised ''NameError''))]"
  let ?sA = "\<lparr>entries = [(''a'', VInt 1)], added_values = {''a''},
               ignored_fallback_writes = [], modified = {}, typechanges = []\<rparr>"
  let ?sB = "\<lparr>entries = [(''a'', VInt 1), (''b'', VInt 2)], added_values = {''a'', ''b''},
               ignored_fallback_writes = [], modified = {}, typechanges = []\<rparr>"
  have a: "call_entry ?A [] [] [] = Inr ?sA"
    by (simp add: ConfigDict_call_def ns_update_def dict_update_def undogmatize_def
          undogmatize_dict_def scope_eval)
  have b: "call_entry ?B [] (dict_update [] (entries ?sA)) [] = Inr ?sB"
    by (simp add: dict_update_def scope_eval insert_commute)
  have h: "distinct (map fst ([] :: dict))" "keys [] \<subseteq> keys (entries ?sA)"
    "keys (entries ?sA) \<subseteq> keys (entries ?sB)"
    by simp_all
  from chain_evaluate_two [OF a b] h a show ?thesis
    by (simp add: dict_update_def)
qed

text \<open>
  Claim C2 as stated fails. With two scopes that have no parameters and empty bodies and
  the starting preset \<^verbatim>\<open>{_x: 1}\<close>, the chain returns \<^verbatim>\<open>{_x: 1}\<close>, while the first
  scope returns the empty mapping and the second scope, evaluated alone with that mapping
  as its preset, returns the empty mapping too. With the starting preset \<^verbatim>\<open>{a: 1}\<close>, an
  empty first scope and a second scope that binds \<^verbatim>\<open>a\<close> to a function object, the chain
  returns \<^verbatim>\<open>{a: 1}\<close>, while the second scope, evaluated alone with the result
  \<^verbatim>\<open>{a: 1}\<close> of the first as its preset, returns the empty mapping.
\<close>

theorem chain_evaluate_two_counterexample:
  "chain_evaluate_config_scopes [ConfigScope [] [], ConfigScope [] []] None
     (Some [(''_x'', VInt 1)]) None =
     Inr ([(''_x'', VInt 1)],
          [\<lparr>entries = [], added_values = {}, ignored_fallback_writes = [], modified = {},
             typechanges = []\<rparr>,
           \<lparr>entries = [], added_values = {}, ignored_fallback_writes = [], modified = {},
             typechanges = []\<rparr>])
   \<and> call_entry (ConfigScope [] []) [] [(''_x'', VInt 1)] [] =
       Inr \<lparr>entries = [], added_values = {}, ignored_fallback_writes = [], modified = {},
            typechanges = []\<rparr>
   \<and> call_entry (ConfigScope [] []) [] [] [] =
       Inr \<lparr>entries = [], added_values = {}, ignored_fallback_writes = [], modified = {},
            typechanges = []\<rparr>
   \<and> chain_evaluate_config_scopes
        [ConfigScope [] [], ConfigScope [] [Assign ''a'' (\<lambda>env. Inr (VOpaque ''function''))]]
        None (Some [(''a'', VInt 1)]) None =
       Inr ([(''a'', VInt 1)],
            [\<lparr>entries = [(''a'', VInt 1)], added_values = {}, ignored_fallback_writes = [],
               modified = {}, typechanges = []\<rparr>,
             \<lparr>entries = [], added_values = {''a''}, ignored_fallback_writes = [],
               modified = {}, typechanges = []\<rparr>])
   \<and> call_entry (ConfigScope [] [Assign ''a'' (\<lambda>env. Inr (VOpaque ''function''))]) []
        [(''a'', VInt 1)] [] =
       Inr \<lparr>entries = [], added_values = {''a''}, ignored_fallback_writes = [],
            modified = {}, typechanges = []\<rparr>"
  by (simp add: chain_evaluate_config_scopes_def dict_update_def undogmatize_dict_def scope_eval)

end
